theory Spec2Isabelle
  imports Main "HOL-Library.AList"
begin

section \<open>Strings and loosely typed values\<close>

text \<open>
  The pages of the management UI are TypeScript. A string is modelled as a \<open>char list\<close>: the
  strings whose code units are below 256, a \<open>char\<close> being the code unit U+0000 to U+00FF of
  that number. On these strings the functions below are those of the language.

  \<open>String.prototype.toLowerCase\<close> maps \<open>A\<close>..\<open>Z\<close> (65..90) and the capital letters U+00C0 to
  U+00DE, the multiplication sign U+00D7 apart, to the code unit 32 above, and leaves every
  other code unit below 256 alone.
\<close>

definition isUpperCase :: "char \<Rightarrow> bool" where
  "isUpperCase c =
     ((65 \<le> (of_char c :: nat) \<and> (of_char c :: nat) \<le> 90)
      \<or> (192 \<le> (of_char c :: nat) \<and> (of_char c :: nat) \<le> 222 \<and> (of_char c :: nat) \<noteq> 215))"

definition lowerChar :: "char \<Rightarrow> char" where
  "lowerChar c = (if isUpperCase c then char_of ((of_char c :: nat) + 32) else c)"

definition toLowerCase :: "string \<Rightarrow> string" where
  "toLowerCase s = map lowerChar s"

text \<open>
  The flag \<open>i\<close> of a regular expression compares two characters by their \<open>Canonicalize\<close>,
  which is another function: it takes the upper case of a character when that is one code
  unit, and keeps a character of code 128 or more whose upper case is below 128. Below 256 it
  maps \<open>a\<close>..\<open>z\<close> (97..122) and the small letters U+00E0 to U+00FE, the division sign U+00F7
  apart, to the code unit 32 below. Three characters stay as they are and match themselves
  only: U+00DF, whose upper case is two characters, and U+00B5 and U+00FF, whose upper cases
  (U+039C and U+0178) are the upper case of no other code unit below 256.
\<close>

definition isLowerCase :: "char \<Rightarrow> bool" where
  "isLowerCase c =
     ((97 \<le> (of_char c :: nat) \<and> (of_char c :: nat) \<le> 122)
      \<or> (224 \<le> (of_char c :: nat) \<and> (of_char c :: nat) \<le> 254 \<and> (of_char c :: nat) \<noteq> 247))"

definition canonChar :: "char \<Rightarrow> char" where
  "canonChar c = (if isLowerCase c then char_of ((of_char c :: nat) - 32) else c)"

definition canonical :: "string \<Rightarrow> string" where
  "canonical s = map canonChar s"

text \<open>
  \<open>String.prototype.trim\<close> removes white space and line terminators from both ends: below 256
  these are tab, line feed, vertical tab, form feed, carriage return (9..13), space (32) and
  the no-break space U+00A0 (160).
\<close>

definition isBlank :: "char \<Rightarrow> bool" where
  "isBlank c =
     ((of_char c :: nat) = 32 \<or> (of_char c :: nat) = 160
      \<or> (9 \<le> (of_char c :: nat) \<and> (of_char c :: nat) \<le> 13))"

definition trim :: "string \<Rightarrow> string" where
  "trim s = rev (dropWhile isBlank (rev (dropWhile isBlank s)))"

text \<open>
  Values whose static type is \<open>unknown\<close> (backend JSON) keep their dynamic type. The code
  looks at a number in three ways only: whether it is zero (\<open>value !== 0\<close>), whether it is
  truthy, and the text that \<open>String\<close> gives for it. A number is therefore zero (\<open>0\<close> or \<open>-0\<close>,
  both written \<open>0\<close>), \<open>NaN\<close>, or any other number together with its text (\<open>12\<close>, \<open>-0.5\<close>,
  \<open>1e+21\<close>). An object is its table of own properties.
\<close>

datatype jsnum = NumZero | NumNaN | NumOther string

datatype jsval =
    JUndefined
  | JNull
  | JBool bool
  | JNum jsnum
  | JStr string
  | JArr "jsval list"
  | JObj "(string \<times> jsval) list"

fun numStr :: "jsnum \<Rightarrow> string" where
  "numStr NumZero = ''0''"
| "numStr NumNaN = ''NaN''"
| "numStr (NumOther text) = text"

fun joinWith :: "string \<Rightarrow> string list \<Rightarrow> string" where
  "joinWith sep [] = []"
| "joinWith sep [s] = s"
| "joinWith sep (s # t # r) = s @ sep @ joinWith sep (t # r)"

fun isNullish :: "jsval \<Rightarrow> bool" where
  "isNullish JUndefined = True"
| "isNullish JNull = True"
| "isNullish _ = False"

text \<open>\<open>String(v)\<close>; an array joins the strings of its elements with a comma, writing
  nothing for \<open>null\<close> and \<open>undefined\<close>.\<close>

fun jsString :: "jsval \<Rightarrow> string" where
  "jsString JUndefined = ''undefined''"
| "jsString JNull = ''null''"
| "jsString (JBool b) = (if b then ''true'' else ''false'')"
| "jsString (JNum n) = numStr n"
| "jsString (JStr s) = s"
| "jsString (JArr vs) = joinWith '','' (map (\<lambda>v. if isNullish v then [] else jsString v) vs)"
| "jsString (JObj ps) = ''[object Object]''"

text \<open>The operator \<open>a ?? b\<close>, truthiness, and a property read \<open>record[k]\<close>.\<close>

definition coalesce :: "jsval \<Rightarrow> jsval \<Rightarrow> jsval" where
  "coalesce a b = (if isNullish a then b else a)"

fun jsTruthy :: "jsval \<Rightarrow> bool" where
  "jsTruthy JUndefined = False"
| "jsTruthy JNull = False"
| "jsTruthy (JBool b) = b"
| "jsTruthy (JNum NumZero) = False"
| "jsTruthy (JNum NumNaN) = False"
| "jsTruthy (JNum (NumOther text)) = True"
| "jsTruthy (JStr s) = (s \<noteq> [])"
| "jsTruthy (JArr vs) = True"
| "jsTruthy (JObj ps) = True"

definition getProp :: "(string \<times> jsval) list \<Rightarrow> string \<Rightarrow> jsval" where
  "getProp ps k = (case map_of ps k of None \<Rightarrow> JUndefined | Some v \<Rightarrow> v)"

definition optStr :: "string option \<Rightarrow> jsval" where
  "optStr x = (case x of None \<Rightarrow> JUndefined | Some s \<Rightarrow> JStr s)"

text \<open>
  \<^verbatim>\<open>
  const normalizeText = (value: unknown): string => String(value ?? '').trim();
  const normalizeProviderKey = (value: unknown): string => normalizeText(value).toLowerCase();
  \<close>
\<close>

definition normalizeText :: "jsval \<Rightarrow> string" where
  "normalizeText v = trim (jsString (coalesce v (JStr [])))"

definition normalizeProviderKey :: "jsval \<Rightarrow> string" where
  "normalizeProviderKey v = toLowerCase (normalizeText v)"

text \<open>
  \<^verbatim>\<open>
  const isTruthyFlag = (value: unknown): boolean => {
    if (value === true) return true;
    if (typeof value === 'number') return value !== 0;
    if (typeof value === 'string') {
      const normalized = value.trim().toLowerCase();
      return ['true', '1', 'yes', 'y', 'on'].includes(normalized);
    }
    return false;
  };
  \<close>
\<close>

fun isTruthyFlag :: "jsval \<Rightarrow> bool" where
  "isTruthyFlag (JBool b) = b"
| "isTruthyFlag (JNum n) = (n \<noteq> NumZero)"
| "isTruthyFlag (JStr s) = (toLowerCase (trim s) \<in> set [''true'', ''1'', ''yes'', ''y'', ''on''])"
| "isTruthyFlag _ = False"

section \<open>Masking a key\<close>

text \<open>
  \<open>maskKey\<close> (both copies of the endpoints page define it the same way) writes the bullet
  U+2022, which is no 8-bit code unit: a masked string is a list of plain characters and
  bullets.
  \<^verbatim>\<open>
  const maskKey = (key: string): string => {
    if (key.length <= 8) return [eight bullets];
    return `${key.slice(0, 5)}${[bullet].repeat(Math.min(key.length - 8, 16))}${key.slice(-4)}`;
  };
  \<close>
\<close>

datatype mchar = Plain char | Bullet

definition maskKey :: "string \<Rightarrow> mchar list" where
  "maskKey key =
     (if length key \<le> 8 then replicate 8 Bullet
      else map Plain (take 5 key)
           @ replicate (min (length key - 8) 16) Bullet
           @ map Plain (drop (length key - 4) key))"

text \<open>What a reader of a mask learns of the key: the mask without its bullets.\<close>

fun plainOf :: "mchar list \<Rightarrow> string" where
  "plainOf [] = []"
| "plainOf (Plain c # r) = c # plainOf r"
| "plainOf (Bullet # r) = plainOf r"

section \<open>First occurrences\<close>

text \<open>
  The loops below keep an element when no earlier element has the same key. \<open>firstOcc f\<close>
  says it without a loop: the head stays, and the elements with its key leave the rest.
\<close>

primrec firstOcc :: "('a \<Rightarrow> 'k) \<Rightarrow> 'a list \<Rightarrow> 'a list" where
  "firstOcc f [] = []"
| "firstOcc f (x # xs) = x # filter (\<lambda>y. f y \<noteq> f x) (firstOcc f xs)"

section \<open>Model lists\<close>

text \<open>
  Modelled from the spec: the type \<open>ModelInfo\<close> is declared in \<open>@/utils/models\<close>, of which only
  the import is in the sources. A model has a \<open>name\<close> and, optionally, an \<open>alias\<close> and a
  \<open>description\<close>; these are the fields the code reads and writes.
\<close>

record ModelInfo =
  name :: string
  "alias" :: "string option"
  description :: "string option"

text \<open>
  \<^verbatim>\<open>
  const dedupeModels = (models: ModelInfo[]): ModelInfo[] => {
    const seen = new Set<string>();
    const result: ModelInfo[] = [];
    models.forEach((model) => {
      const name = normalizeText(model.name);
      if (!name) return;
      const key = name.toLowerCase();
      if (seen.has(key)) return;
      seen.add(key);
      const alias = normalizeText(model.alias);
      const description = normalizeText(model.description);
      const next: ModelInfo = { name };
      if (alias && alias.toLowerCase() !== key) next.alias = alias;
      if (description) next.description = description;
      result.push(next);
    });
    return result;
  };
  \<close>
  The loop carries the set \<open>seen\<close> and the list \<open>result\<close>.
\<close>

definition dedupeNext :: "ModelInfo \<Rightarrow> ModelInfo" where
  "dedupeNext model =
     (let name' = normalizeText (JStr (name model));
          key = toLowerCase name';
          alias' = normalizeText (optStr (alias model));
          description' = normalizeText (optStr (description model))
      in \<lparr> name = name',
           alias = (if alias' \<noteq> [] \<and> toLowerCase alias' \<noteq> key then Some alias' else None),
           description = (if description' \<noteq> [] then Some description' else None) \<rparr>)"

fun dedupeLoop :: "string set \<Rightarrow> ModelInfo list \<Rightarrow> ModelInfo list \<Rightarrow> ModelInfo list" where
  "dedupeLoop seen result [] = result"
| "dedupeLoop seen result (model # rest) =
     (let name' = normalizeText (JStr (name model)) in
      if name' = [] then dedupeLoop seen result rest
      else let key = toLowerCase name' in
        if key \<in> seen then dedupeLoop seen result rest
        else dedupeLoop (insert key seen) (result @ [dedupeNext model]) rest)"

definition dedupeModels :: "ModelInfo list \<Rightarrow> ModelInfo list" where
  "dedupeModels models = dedupeLoop {} [] models"

text \<open>The key of a model in \<open>seen\<close>: its trimmed name in lower case.\<close>

definition modelKey :: "ModelInfo \<Rightarrow> string" where
  "modelKey m = toLowerCase (trim (name m))"

text \<open>
  \<^verbatim>\<open>
  const normalizeExcludedPatterns = (patterns?: string[]): string[] => {
    if (!Array.isArray(patterns) || patterns.length === 0) return [];
    const seen = new Set<string>();
    const normalized: string[] = [];
    patterns.forEach((pattern) => {
      const trimmed = normalizeText(pattern);
      if (!trimmed) return;
      const key = trimmed.toLowerCase();
      if (seen.has(key)) return;
      seen.add(key);
      normalized.push(trimmed);
    });
    return normalized;
  };
  \<close>
\<close>

fun patternLoop :: "string set \<Rightarrow> string list \<Rightarrow> string list \<Rightarrow> string list" where
  "patternLoop seen normalized [] = normalized"
| "patternLoop seen normalized (pattern # rest) =
     (let trimmed = normalizeText (JStr pattern) in
      if trimmed = [] then patternLoop seen normalized rest
      else let key = toLowerCase trimmed in
        if key \<in> seen then patternLoop seen normalized rest
        else patternLoop (insert key seen) (normalized @ [trimmed]) rest)"

definition normalizeExcludedPatterns :: "string list option \<Rightarrow> string list" where
  "normalizeExcludedPatterns patterns =
     (case patterns of None \<Rightarrow> [] | Some ps \<Rightarrow> patternLoop {} [] ps)"

section \<open>Exclusion patterns\<close>

text \<open>
  \<open>matchExcludePattern\<close> writes the source text of a regular expression and runs it:
  \<^verbatim>\<open>
  const matchExcludePattern = (model: string, pattern: string): boolean => {
    if (!pattern.includes('*')) {
      return model.toLowerCase() === pattern.toLowerCase();
    }
    const regexSafePattern = pattern
      .split('*')
      .map((segment) => segment.replace(/[.*+?^${}()|[\]\\]/g, '\\$&'))
      .join('.*');
    const regex = new RegExp(`^${regexSafePattern}$`, 'i');
    return regex.test(model);
  };
  \<close>
  The engine is modelled for the part of the syntax such a text can use: a character, an
  escaped syntax character, the dot, the star after one of these, and the two anchors. A dot
  matches every code unit but a line terminator (line feed, carriage return); with the flag
  \<open>i\<close> a character of the expression matches a character of the input when the two have the
  same \<open>canonChar\<close>. \<open>parseRegex\<close> answers \<open>None\<close> on any other syntax.
\<close>

definition backslash :: char where
  "backslash = CHR 0x5C"

definition regexSyntaxChars :: "char list" where
  "regexSyntaxChars = ''.*+?^${}()|[]'' @ [backslash]"

fun splitOn :: "char \<Rightarrow> string \<Rightarrow> string list" where
  "splitOn sep [] = [[]]"
| "splitOn sep (c # cs) =
     (if c = sep then [] # splitOn sep cs
      else (case splitOn sep cs of [] \<Rightarrow> [[c]] | s # ss \<Rightarrow> (c # s) # ss))"

fun escapeRegex :: "string \<Rightarrow> string" where
  "escapeRegex [] = []"
| "escapeRegex (c # cs) =
     (if c \<in> set regexSyntaxChars then backslash # c # escapeRegex cs else c # escapeRegex cs)"

datatype atom = AChar char | ADot

datatype rtoken = TStart | TEnd | TOne atom | TStar atom

definition isLineTerminator :: "char \<Rightarrow> bool" where
  "isLineTerminator c = (c = CHR 0x0A \<or> c = CHR 0x0D)"

fun parseAtoms :: "string \<Rightarrow> (atom + char) list option" where
  "parseAtoms [] = Some []"
| "parseAtoms (c # cs) =
     (if c = backslash then
        (case cs of
           [] \<Rightarrow> None
         | e # r \<Rightarrow> if e \<in> set regexSyntaxChars
                    then map_option (Cons (Inl (AChar e))) (parseAtoms r) else None)
      else if c = CHR ''.'' then map_option (Cons (Inl ADot)) (parseAtoms cs)
      else if c \<in> set regexSyntaxChars then map_option (Cons (Inr c)) (parseAtoms cs)
      else map_option (Cons (Inl (AChar c))) (parseAtoms cs))"

fun parseTokens :: "(atom + char) list \<Rightarrow> rtoken list option" where
  "parseTokens [] = Some []"
| "parseTokens (Inl a # Inr c # r) =
     (if c = CHR ''*'' then map_option (Cons (TStar a)) (parseTokens r)
      else map_option (Cons (TOne a)) (parseTokens (Inr c # r)))"
| "parseTokens (Inl a # r) = map_option (Cons (TOne a)) (parseTokens r)"
| "parseTokens (Inr c # r) =
     (if c = CHR ''^'' then map_option (Cons TStart) (parseTokens r)
      else if c = CHR ''$'' then map_option (Cons TEnd) (parseTokens r)
      else None)"

definition parseRegex :: "string \<Rightarrow> rtoken list option" where
  "parseRegex src = (case parseAtoms src of None \<Rightarrow> None | Some as \<Rightarrow> parseTokens as)"

fun atomOk :: "atom \<Rightarrow> char \<Rightarrow> bool" where
  "atomOk (AChar p) c = (canonChar p = canonChar c)"
| "atomOk ADot c = (\<not> isLineTerminator c)"

text \<open>The backtracking matcher: \<open>atStart\<close> says whether the position is the start of
  the input; a star first tries to take one more character.\<close>

fun matchHere :: "rtoken list \<Rightarrow> bool \<Rightarrow> string \<Rightarrow> bool" where
  "matchHere [] atStart s = True"
| "matchHere (TStart # ts) atStart s = (atStart \<and> matchHere ts atStart s)"
| "matchHere (TEnd # ts) atStart s = (s = [] \<and> matchHere ts atStart s)"
| "matchHere (TOne a # ts) atStart [] = False"
| "matchHere (TOne a # ts) atStart (c # cs) = (atomOk a c \<and> matchHere ts False cs)"
| "matchHere (TStar a # ts) atStart [] = matchHere ts atStart []"
| "matchHere (TStar a # ts) atStart (c # cs) =
     ((atomOk a c \<and> matchHere (TStar a # ts) False cs) \<or> matchHere ts atStart (c # cs))"

fun searchFrom :: "rtoken list \<Rightarrow> bool \<Rightarrow> string \<Rightarrow> bool" where
  "searchFrom ts atStart [] = matchHere ts atStart []"
| "searchFrom ts atStart (c # cs) = (matchHere ts atStart (c # cs) \<or> searchFrom ts False cs)"

definition regexTest :: "rtoken list \<Rightarrow> string \<Rightarrow> bool" where
  "regexTest ts s = searchFrom ts True s"

definition excludeRegexSource :: "string \<Rightarrow> string" where
  "excludeRegexSource pattern =
     ''^'' @ joinWith ''.*'' (map escapeRegex (splitOn (CHR ''*'') pattern)) @ ''$''"

definition matchExcludePattern :: "string \<Rightarrow> string \<Rightarrow> bool" where
  "matchExcludePattern model pattern =
     (if CHR ''*'' \<notin> set pattern then toLowerCase model = toLowerCase pattern
      else (case parseRegex (excludeRegexSource pattern) of
              None \<Rightarrow> False
            | Some ts \<Rightarrow> regexTest ts model))"

text \<open>
  What the specification says of a pattern with wildcards, without an engine: the literal runs
  between the stars are \<open>segs\<close>; a string matches when it is the runs in their order, each up
  to the case folding of the flag \<open>i\<close> (\<open>canonical\<close>, which is not \<open>toLowerCase\<close>), with a gap
  at each star that holds any characters but line terminators.
\<close>

fun globMatches :: "string list \<Rightarrow> string \<Rightarrow> bool" where
  "globMatches [] w = (w = [])"
| "globMatches [seg] w = (canonical w = canonical seg)"
| "globMatches (seg # t # r) w =
     (\<exists>u g v. w = u @ g @ v \<and> canonical u = canonical seg
              \<and> \<not> list_ex isLineTerminator g \<and> globMatches (t # r) v)"

text \<open>The tokens of the expression that \<open>matchExcludePattern\<close> writes for the runs.\<close>

fun globTokens :: "string list \<Rightarrow> rtoken list" where
  "globTokens [] = []"
| "globTokens [seg] = map (\<lambda>c. TOne (AChar c)) seg"
| "globTokens (seg # t # r) = map (\<lambda>c. TOne (AChar c)) seg @ TStar ADot # globTokens (t # r)"

text \<open>The same expression after the first pass of the parser.\<close>

fun globAtoms :: "string list \<Rightarrow> (atom + char) list" where
  "globAtoms [] = []"
| "globAtoms [seg] = map (\<lambda>c. Inl (AChar c)) seg"
| "globAtoms (seg # t # r) =
     map (\<lambda>c. Inl (AChar c)) seg @ Inl ADot # Inr (CHR ''*'') # globAtoms (t # r)"

text \<open>
  \<^verbatim>\<open>
  const filterExcludedModels = (models: ModelInfo[], patterns?: string[]): ModelInfo[] => {
    const normalizedPatterns = normalizeExcludedPatterns(patterns);
    if (normalizedPatterns.length === 0) return models;
    return models.filter((model) => {
      const candidates = [normalizeText(model.name), normalizeText(model.alias)].filter(Boolean);
      if (candidates.length === 0) return true;
      const excluded = candidates.some((candidate) =>
        normalizedPatterns.some((pattern) => matchExcludePattern(candidate, pattern))
      );
      return !excluded;
    });
  };
  \<close>
\<close>

definition filterExcludedModels :: "ModelInfo list \<Rightarrow> string list option \<Rightarrow> ModelInfo list" where
  "filterExcludedModels models patterns =
     (let normalizedPatterns = normalizeExcludedPatterns patterns in
      if normalizedPatterns = [] then models
      else filter (\<lambda>model.
             let candidates = filter (\<lambda>c. c \<noteq> [])
                   [normalizeText (JStr (name model)), normalizeText (optStr (alias model))]
             in if candidates = [] then True
                else \<not> list_ex (\<lambda>candidate.
                         list_ex (\<lambda>pattern. matchExcludePattern candidate pattern)
                                 normalizedPatterns) candidates) models)"

section \<open>API key lists\<close>

text \<open>
  The shared hook and the endpoints page that still carries its own helpers read a key list so:
  \<^verbatim>\<open>
  const normalizeApiKeyList = (input: unknown): string[] => {
    if (!Array.isArray(input)) return [];
    const seen = new Set<string>();
    const keys: string[] = [];
    input.forEach((item) => {
      const record =
        item !== null && typeof item === 'object' && !Array.isArray(item)
          ? (item as Record<string, unknown>)
          : null;
      const value =
        typeof item === 'string'
          ? item
          : record
            ? (record['api-key'] ?? record.apiKey ?? record.key ?? record.Key)
            : '';
      const apiKey = normalizeText(value);
      if (!apiKey) return;
      const key = apiKey.toLowerCase();
      if (seen.has(key)) return;
      seen.add(key);
      keys.push(apiKey);
    });
    return keys;
  };
  \<close>
\<close>

fun apiKeyValue :: "jsval \<Rightarrow> jsval" where
  "apiKeyValue (JStr s) = JStr s"
| "apiKeyValue (JObj record) =
     coalesce (coalesce (coalesce (getProp record ''api-key'') (getProp record ''apiKey''))
                        (getProp record ''key''))
              (getProp record ''Key'')"
| "apiKeyValue _ = JStr []"

fun apiKeyLoop :: "string set \<Rightarrow> string list \<Rightarrow> jsval list \<Rightarrow> string list" where
  "apiKeyLoop seen keys [] = keys"
| "apiKeyLoop seen keys (item # rest) =
     (let apiKey = normalizeText (apiKeyValue item) in
      if apiKey = [] then apiKeyLoop seen keys rest
      else let key = toLowerCase apiKey in
        if key \<in> seen then apiKeyLoop seen keys rest
        else apiKeyLoop (insert key seen) (keys @ [apiKey]) rest)"

fun normalizeApiKeyList :: "jsval \<Rightarrow> string list" where
  "normalizeApiKeyList (JArr items) = apiKeyLoop {} [] items"
| "normalizeApiKeyList _ = []"

text \<open>
  The older endpoints page has a copy of its own, which looks the trimmed key itself up in
  \<open>seen\<close>:
  \<^verbatim>\<open>
      const trimmed = String(value ?? '').trim();
      if (!trimmed || seen.has(trimmed)) return;
      seen.add(trimmed);
      keys.push(trimmed);
  \<close>
\<close>

fun apiKeyLoop_page :: "string set \<Rightarrow> string list \<Rightarrow> jsval list \<Rightarrow> string list" where
  "apiKeyLoop_page seen keys [] = keys"
| "apiKeyLoop_page seen keys (item # rest) =
     (let trimmed = trim (jsString (coalesce (apiKeyValue item) (JStr []))) in
      if trimmed = [] \<or> trimmed \<in> seen then apiKeyLoop_page seen keys rest
      else apiKeyLoop_page (insert trimmed seen) (keys @ [trimmed]) rest)"

fun normalizeApiKeyList_page :: "jsval \<Rightarrow> string list" where
  "normalizeApiKeyList_page (JArr items) = apiKeyLoop_page {} [] items"
| "normalizeApiKeyList_page _ = []"

text \<open>
  The list the specification describes: the trimmed keys of the elements in their order, the
  empty ones left out, a key kept where it first occurs (exact match).
\<close>

definition trimmedKeys :: "jsval list \<Rightarrow> string list" where
  "trimmedKeys items = filter (\<lambda>k. k \<noteq> []) (map (\<lambda>item. normalizeText (apiKeyValue item)) items)"

definition normalizeApiKeyList_spec :: "jsval list \<Rightarrow> string list" where
  "normalizeApiKeyList_spec items = firstOcc (\<lambda>k. k) (trimmedKeys items)"

section \<open>From backend models to model lists\<close>

record ConfiguredModel =
  cm_name :: string
  cm_alias :: "string option"

text \<open>
  \<^verbatim>\<open>
  const convertConfiguredModels = (
    models: Array<{ name: string; alias?: string }> | undefined
  ): ModelInfo[] => {
    if (!Array.isArray(models)) return [];
    const converted = models
      .map((model) => {
        const rawName = normalizeText(model.name);
        if (!rawName) return null;
        const alias = normalizeText(model.alias);
        if (alias && alias.toLowerCase() !== rawName.toLowerCase()) {
          return { name: alias, alias: rawName } satisfies ModelInfo;
        }
        return { name: rawName } satisfies ModelInfo;
      })
      .filter(Boolean) as ModelInfo[];
    return dedupeModels(converted);
  };
  \<close>
\<close>

definition convertConfiguredModel :: "ConfiguredModel \<Rightarrow> ModelInfo option" where
  "convertConfiguredModel model =
     (let rawName = normalizeText (JStr (cm_name model)) in
      if rawName = [] then None
      else let alias' = normalizeText (optStr (cm_alias model)) in
        if alias' \<noteq> [] \<and> toLowerCase alias' \<noteq> toLowerCase rawName
        then Some \<lparr> name = alias', alias = Some rawName, description = None \<rparr>
        else Some \<lparr> name = rawName, alias = None, description = None \<rparr>)"

definition convertConfiguredModels :: "ConfiguredModel list option \<Rightarrow> ModelInfo list" where
  "convertConfiguredModels models =
     (case models of
        None \<Rightarrow> []
      | Some ms \<Rightarrow> dedupeModels (List.map_filter convertConfiguredModel ms))"

record AuthApiModel =
  am_id :: string
  am_display_name :: "string option"

text \<open>
  \<^verbatim>\<open>
  const normalizeAuthApiModels = (
    models: Array<{ id: string; display_name?: string; type?: string; owned_by?: string }>
  ): ModelInfo[] => {
    const normalized = models
      .map((model) => {
        const id = normalizeText(model.id);
        if (!id) return null;
        const alias = normalizeText(model.display_name);
        if (alias && alias.toLowerCase() !== id.toLowerCase()) {
          return { name: id, alias } satisfies ModelInfo;
        }
        return { name: id } satisfies ModelInfo;
      })
      .filter(Boolean) as ModelInfo[];
    return dedupeModels(normalized);
  };
  \<close>
\<close>

definition normalizeAuthApiModel :: "AuthApiModel \<Rightarrow> ModelInfo option" where
  "normalizeAuthApiModel model =
     (let id' = normalizeText (JStr (am_id model)) in
      if id' = [] then None
      else let alias' = normalizeText (optStr (am_display_name model)) in
        if alias' \<noteq> [] \<and> toLowerCase alias' \<noteq> toLowerCase id'
        then Some \<lparr> name = id', alias = Some alias', description = None \<rparr>
        else Some \<lparr> name = id', alias = None, description = None \<rparr>)"

definition normalizeAuthApiModels :: "AuthApiModel list \<Rightarrow> ModelInfo list" where
  "normalizeAuthApiModels models = dedupeModels (List.map_filter normalizeAuthApiModel models)"

text \<open>
  The type \<open>OAuthModelAliasEntry\<close> is declared in \<open>@/types\<close> as well; \<open>buildAliasLookup\<close> reads
  its fields \<open>name\<close> and \<open>alias\<close>.
\<close>

record OAuthModelAliasEntry =
  oa_name :: string
  oa_alias :: string

text \<open>
  \<^verbatim>\<open>
  const buildAliasLookup = (entries?: OAuthModelAliasEntry[]): Record<string, string> => {
    if (!Array.isArray(entries) || entries.length === 0) return {};
    const aliasLookup: Record<string, string> = {};
    entries.forEach((entry) => {
      const name = normalizeText(entry.name).toLowerCase();
      const alias = normalizeText(entry.alias);
      if (!name || !alias) return;
      aliasLookup[name] = alias;
    });
    return aliasLookup;
  };
  \<close>
  A \<open>Record<string, string>\<close> is its table of own properties, one row for each key. The
  object is a plain one: the assignment \<open>aliasLookup["__proto__"] = alias\<close> runs the setter
  that the object inherits, which ignores a string, and adds no row.
\<close>

fun aliasLookupLoop :: "(string \<times> string) list \<Rightarrow> OAuthModelAliasEntry list \<Rightarrow> (string \<times> string) list" where
  "aliasLookupLoop aliasLookup [] = aliasLookup"
| "aliasLookupLoop aliasLookup (entry # rest) =
     (let name' = toLowerCase (normalizeText (JStr (oa_name entry)));
          alias' = normalizeText (JStr (oa_alias entry))
      in if name' = [] \<or> alias' = [] then aliasLookupLoop aliasLookup rest
         else if name' = ''__proto__'' then aliasLookupLoop aliasLookup rest
         else aliasLookupLoop (AList.update name' alias' aliasLookup) rest)"

definition buildAliasLookup :: "OAuthModelAliasEntry list option \<Rightarrow> (string \<times> string) list" where
  "buildAliasLookup entries =
     (case entries of None \<Rightarrow> [] | Some es \<Rightarrow> aliasLookupLoop [] es)"

text \<open>
  \<^verbatim>\<open>
  const applyAliasLookup = (models: ModelInfo[], lookup?: Record<string, string>): ModelInfo[] => {
    if (!lookup || Object.keys(lookup).length === 0) {
      return dedupeModels(models);
    }
    const mapped = models.map((model) => {
      const rawName = normalizeText(model.name);
      if (!rawName) return model;
      const mappedAlias = normalizeText(lookup[rawName.toLowerCase()]);
      if (!mappedAlias) return model;
      if (mappedAlias.toLowerCase() === rawName.toLowerCase()) return model;
      return { ...model, name: mappedAlias, alias: rawName } satisfies ModelInfo;
    });
    return dedupeModels(mapped);
  };
  \<close>
\<close>

text \<open>
  The read \<open>lookup[key]\<close> gives the own property of that name and, when there is none, the
  property that a plain object inherits from \<open>Object.prototype\<close>: a built-in function, or under
  \<open>__proto__\<close> the prototype itself. The value read goes to \<open>String\<close> only, so an inherited
  value stands as its text: \<open>[object Object]\<close> for the prototype, and for a built-in function
  the text of the engine, here the one of V8 and JavaScriptCore.
\<close>

definition objectPrototypeFunctions :: "(string \<times> string) list" where
  "objectPrototypeFunctions =
     [(''constructor'', ''Object''),
      (''__defineGetter__'', ''__defineGetter__''),
      (''__defineSetter__'', ''__defineSetter__''),
      (''hasOwnProperty'', ''hasOwnProperty''),
      (''__lookupGetter__'', ''__lookupGetter__''),
      (''__lookupSetter__'', ''__lookupSetter__''),
      (''isPrototypeOf'', ''isPrototypeOf''),
      (''propertyIsEnumerable'', ''propertyIsEnumerable''),
      (''toString'', ''toString''),
      (''valueOf'', ''valueOf''),
      (''toLocaleString'', ''toLocaleString'')]"

definition inheritedText :: "string \<Rightarrow> string option" where
  "inheritedText key =
     (if key = ''__proto__'' then Some ''[object Object]''
      else (case map_of objectPrototypeFunctions key of
              None \<Rightarrow> None
            | Some f \<Rightarrow> Some (''function '' @ f @ ''() { [native code] }'')))"

definition recordGet :: "(string \<times> string) list \<Rightarrow> string \<Rightarrow> jsval" where
  "recordGet lookup key =
     (case map_of lookup key of
        Some v \<Rightarrow> JStr v
      | None \<Rightarrow> optStr (inheritedText key))"

definition applyAlias :: "(string \<times> string) list \<Rightarrow> ModelInfo \<Rightarrow> ModelInfo" where
  "applyAlias lookup model =
     (let rawName = normalizeText (JStr (name model)) in
      if rawName = [] then model
      else let mappedAlias = normalizeText (recordGet lookup (toLowerCase rawName)) in
        if mappedAlias = [] then model
        else if toLowerCase mappedAlias = toLowerCase rawName then model
        else model \<lparr> name := mappedAlias, alias := Some rawName \<rparr>)"

definition applyAliasLookup :: "ModelInfo list \<Rightarrow> (string \<times> string) list option \<Rightarrow> ModelInfo list" where
  "applyAliasLookup models lookup =
     (case lookup of
        None \<Rightarrow> dedupeModels models
      | Some l \<Rightarrow> if l = [] then dedupeModels models else dedupeModels (map (applyAlias l) models))"

section \<open>Provider entries from credential files\<close>

datatype EndpointSourceKind = AuthProxy | ConfiguredApi

record ProviderKeyOption =
  apiKey :: string

record EndpointProviderEntry =
  entry_id :: string
  sourceKind :: EndpointSourceKind
  providerKey :: string
  entry_name :: string
  baseUrl :: string
  keyOptions :: "ProviderKeyOption list"
  entry_order :: nat
  configuredModels :: "ModelInfo list option"
  authFileNames :: "string list option"
  aliasLookup :: "(string \<times> string) list option"
  excludedPatterns :: "string list option"
  realBaseUrl :: "string option"
  realKeyOptions :: "ProviderKeyOption list option"

text \<open>
  Modelled from the spec: the type \<open>AuthFileItem\<close> is declared in \<open>@/types\<close>, of which only
  the import is in the sources. A credential-file item exposes \<open>name\<close>, \<open>provider\<close>/\<open>type\<close> and
  the optional flags \<open>disabled\<close> and \<open>unavailable\<close>; the flags are loosely typed backend
  values, the other fields strings, \<open>provider\<close> and \<open>type\<close> possibly absent.
\<close>

record AuthFileItem =
  file_name :: string
  provider :: "string option"
  file_type :: "string option"
  disabled :: jsval
  unavailable :: jsval

record AuthGroup =
  label :: string
  group_order :: nat
  files :: "string list"

text \<open>The operator \<open>a || b\<close>, and \<open>Set.add\<close> on a set kept in insertion order.\<close>

definition orElse :: "jsval \<Rightarrow> jsval \<Rightarrow> jsval" where
  "orElse a b = (if jsTruthy a then a else b)"

definition setAdd :: "'a \<Rightarrow> 'a list \<Rightarrow> 'a list" where
  "setAdd x xs = (if x \<in> set xs then xs else xs @ [x])"

text \<open>
  \<^verbatim>\<open>
  const grouped = new Map<string, { label: string; order: number; files: Set<string> }>();
  let order = 0;
  authFiles.forEach((file) => {
    if (isTruthyFlag(file.disabled) || isTruthyFlag(file.unavailable)) return;
    const rawProvider = normalizeText(file.provider || file.type);
    const providerKey = normalizeProviderKey(rawProvider);
    if (!providerKey) return;
    const fileName = normalizeText(file.name);
    if (!fileName) return;
    const existing = grouped.get(providerKey);
    if (existing) {
      existing.files.add(fileName);
      return;
    }
    grouped.set(providerKey, { label: rawProvider, order: order++, files: new Set([fileName]) });
  });
  return Array.from(grouped.entries())
    .sort((a, b) => a[1].order - b[1].order)
    .map(([providerKey, data]) => ({
      id: `auth:${providerKey}`,
      sourceKind: 'auth-proxy' as const,
      providerKey,
      name: data.label,
      baseUrl,
      keyOptions,
      order: data.order,
      authFileNames: Array.from(data.files),
      aliasLookup: buildAliasLookup(aliasMap[providerKey]),
      excludedPatterns: normalizeExcludedPatterns(excludedMap[providerKey]),
    }));
  \<close>
  The map \<open>grouped\<close> is the list of its rows in insertion order. The parameters \<open>aliasMap\<close> and
  \<open>excludedMap\<close> give, for a provider key, the array read under that key when the value read
  is an array, which is all that \<open>buildAliasLookup\<close> and \<open>normalizeExcludedPatterns\<close> look at.
\<close>

definition rawProviderOf :: "AuthFileItem \<Rightarrow> string" where
  "rawProviderOf file = normalizeText (orElse (optStr (provider file)) (optStr (file_type file)))"

definition providerKeyOf :: "AuthFileItem \<Rightarrow> string" where
  "providerKeyOf file = normalizeProviderKey (JStr (rawProviderOf file))"

definition fileNameOf :: "AuthFileItem \<Rightarrow> string" where
  "fileNameOf file = normalizeText (JStr (file_name file))"

fun authGroupLoop ::
  "(string \<times> AuthGroup) list \<Rightarrow> nat \<Rightarrow> AuthFileItem list \<Rightarrow> (string \<times> AuthGroup) list" where
  "authGroupLoop grouped order [] = grouped"
| "authGroupLoop grouped order (file # rest) =
     (if isTruthyFlag (disabled file) \<or> isTruthyFlag (unavailable file)
      then authGroupLoop grouped order rest
      else if providerKeyOf file = [] then authGroupLoop grouped order rest
      else if fileNameOf file = [] then authGroupLoop grouped order rest
      else (case map_of grouped (providerKeyOf file) of
              Some existing \<Rightarrow>
                authGroupLoop
                  (AList.update (providerKeyOf file)
                     (existing \<lparr> files := setAdd (fileNameOf file) (files existing) \<rparr>) grouped)
                  order rest
            | None \<Rightarrow>
                authGroupLoop
                  (grouped @ [(providerKeyOf file,
                      \<lparr> label = rawProviderOf file, group_order = order,
                        files = [fileNameOf file] \<rparr>)])
                  (order + 1) rest))"

definition authEntry ::
  "(string \<Rightarrow> OAuthModelAliasEntry list option) \<Rightarrow> (string \<Rightarrow> string list option) \<Rightarrow>
   string \<Rightarrow> ProviderKeyOption list \<Rightarrow> string \<times> AuthGroup \<Rightarrow> EndpointProviderEntry" where
  "authEntry aliasMap excludedMap baseUrl' keyOptions' row =
     \<lparr> entry_id = ''auth:'' @ fst row,
       sourceKind = AuthProxy,
       providerKey = fst row,
       entry_name = label (snd row),
       baseUrl = baseUrl',
       keyOptions = keyOptions',
       entry_order = group_order (snd row),
       configuredModels = None,
       authFileNames = Some (files (snd row)),
       aliasLookup = Some (buildAliasLookup (aliasMap (fst row))),
       excludedPatterns = Some (normalizeExcludedPatterns (excludedMap (fst row))),
       realBaseUrl = None,
       realKeyOptions = None \<rparr>"

definition buildAuthProviderEntries ::
  "AuthFileItem list \<Rightarrow> (string \<Rightarrow> OAuthModelAliasEntry list option) \<Rightarrow>
   (string \<Rightarrow> string list option) \<Rightarrow> string \<Rightarrow> ProviderKeyOption list \<Rightarrow>
   EndpointProviderEntry list" where
  "buildAuthProviderEntries authFiles aliasMap excludedMap baseUrl' keyOptions' =
     map (authEntry aliasMap excludedMap baseUrl' keyOptions')
         (sort_key (\<lambda>row. group_order (snd row)) (authGroupLoop [] 0 authFiles))"

text \<open>
  The reading of the specification: a file is left out when one of its two flags is truthy,
  and the files that remain are all the others.
\<close>

definition flaggedOff :: "AuthFileItem \<Rightarrow> bool" where
  "flaggedOff file = (isTruthyFlag (disabled file) \<or> isTruthyFlag (unavailable file))"

text \<open>The file names that \<open>grouped\<close> holds for a provider key.\<close>

definition groupFiles :: "(string \<times> AuthGroup) list \<Rightarrow> string \<Rightarrow> string list" where
  "groupFiles g k = (case map_of g k of None \<Rightarrow> [] | Some grp \<Rightarrow> files grp)"

definition contributes :: "AuthFileItem \<Rightarrow> bool" where
  "contributes file = (\<not> flaggedOff file \<and> providerKeyOf file \<noteq> [] \<and> fileNameOf file \<noteq> [])"

section \<open>Resolving the models of a credential-file provider\<close>

text \<open>
  A rejected promise carries any value: an \<open>Error\<close> object with its message, or another
  value. The backend is a parameter: \<open>getModelDefinitions\<close> answers for a provider key and
  \<open>getModelsForAuthFile\<close> for a file name, each with the value it resolves to or the value it
  rejects with. What the function does to the backend is part of what it returns: the list of
  the calls it made, in the order in which it made them, beside its result.
\<close>

datatype thrown = ErrorObj string | ThrownVal jsval

datatype apiCall = GetModelDefinitions string | GetModelsForAuthFile string

fun thrownTruthy :: "thrown \<Rightarrow> bool" where
  "thrownTruthy (ErrorObj m) = True"
| "thrownTruthy (ThrownVal v) = jsTruthy v"

text \<open>
  \<^verbatim>\<open>
  const fetchAuthProxyModels = useCallback(async (entry: EndpointProviderEntry): Promise<ModelInfo[]> => {
    const providerKey = normalizeProviderKey(entry.providerKey);
    if (!providerKey) return [];
    let models: ModelInfo[] = [];
    let definitionError: unknown = null;
    try {
      const definitionModels = await authFilesApi.getModelDefinitions(providerKey);
      models = normalizeAuthApiModels(definitionModels);
    } catch (error: unknown) {
      definitionError = error;
    }
    if (models.length === 0 && entry.authFileNames?.length) {
      const settled = await Promise.allSettled(
        entry.authFileNames.map((fileName) => authFilesApi.getModelsForAuthFile(fileName))
      );
      const collected: ModelInfo[] = [];
      let hasFulfilled = false;
      settled.forEach((result) => {
        if (result.status !== 'fulfilled') return;
        hasFulfilled = true;
        collected.push(...normalizeAuthApiModels(result.value));
      });
      models = dedupeModels(collected);
      if (!hasFulfilled && definitionError) {
        throw definitionError;
      }
    }
    return filterExcludedModels(applyAliasLookup(models, entry.aliasLookup), entry.excludedPatterns);
  }, []);
  \<close>
\<close>

fun settledLoop ::
  "ModelInfo list \<Rightarrow> bool \<Rightarrow> (thrown + AuthApiModel list) list \<Rightarrow> ModelInfo list \<times> bool" where
  "settledLoop collected hasFulfilled [] = (collected, hasFulfilled)"
| "settledLoop collected hasFulfilled (Inl e # rest) = settledLoop collected hasFulfilled rest"
| "settledLoop collected hasFulfilled (Inr v # rest) =
     settledLoop (collected @ normalizeAuthApiModels v) True rest"

definition finishModels :: "EndpointProviderEntry \<Rightarrow> ModelInfo list \<Rightarrow> ModelInfo list" where
  "finishModels entry models =
     filterExcludedModels (applyAliasLookup models (aliasLookup entry)) (excludedPatterns entry)"

text \<open>An optional list read as \<open>xs ?? []\<close>.\<close>

definition orEmpty :: "'a list option \<Rightarrow> 'a list" where
  "orEmpty xs = (case xs of None \<Rightarrow> [] | Some l \<Rightarrow> l)"

definition hasAuthFiles :: "EndpointProviderEntry \<Rightarrow> bool" where
  "hasAuthFiles entry = (case authFileNames entry of None \<Rightarrow> False | Some ns \<Rightarrow> ns \<noteq> [])"

definition fetchAuthProxyModels ::
  "(string \<Rightarrow> thrown + AuthApiModel list) \<Rightarrow> (string \<Rightarrow> thrown + AuthApiModel list) \<Rightarrow>
   EndpointProviderEntry \<Rightarrow> apiCall list \<times> (thrown + ModelInfo list)" where
  "fetchAuthProxyModels getModelDefinitions getModelsForAuthFile entry =
     (let providerKey' = normalizeProviderKey (JStr (providerKey entry)) in
      if providerKey' = [] then ([], Inr [])
      else
        let models = (case getModelDefinitions providerKey' of
                        Inr definitionModels \<Rightarrow> normalizeAuthApiModels definitionModels
                      | Inl e \<Rightarrow> []);
            definitionError = (case getModelDefinitions providerKey' of
                                 Inr definitionModels \<Rightarrow> None
                               | Inl e \<Rightarrow> Some e)
        in if models = [] \<and> hasAuthFiles entry then
             let settled = map getModelsForAuthFile (orEmpty (authFileNames entry));
                 collected = fst (settledLoop [] False settled);
                 hasFulfilled = snd (settledLoop [] False settled)
             in (GetModelDefinitions providerKey'
                   # map GetModelsForAuthFile (orEmpty (authFileNames entry)),
                 case definitionError of
                   Some e \<Rightarrow>
                     if \<not> hasFulfilled \<and> thrownTruthy e then Inl e
                     else Inr (finishModels entry (dedupeModels collected))
                 | None \<Rightarrow> Inr (finishModels entry (dedupeModels collected)))
           else ([GetModelDefinitions providerKey'], Inr (finishModels entry models)))"

text \<open>
  Names for the statements about \<open>fetchAuthProxyModels\<close>: the provider key it sends, the
  file names it asks for, and the values of the calls that were fulfilled.
\<close>

definition entryKey :: "EndpointProviderEntry \<Rightarrow> string" where
  "entryKey entry = normalizeProviderKey (JStr (providerKey entry))"

definition entryFiles :: "EndpointProviderEntry \<Rightarrow> string list" where
  "entryFiles entry = orEmpty (authFileNames entry)"

fun fulfilled :: "('e + 'a) list \<Rightarrow> 'a list" where
  "fulfilled [] = []"
| "fulfilled (Inl e # rest) = fulfilled rest"
| "fulfilled (Inr v # rest) = v # fulfilled rest"

section \<open>The refresh orchestrator\<close>

datatype Status = Idle | Loading | Success | Error

record ProviderModelsState =
  status :: Status
  models :: "ModelInfo list"
  error :: "string option"

text \<open>
  The page holds the map \<open>modelsByProvider\<close> (React state) and the token counters
  \<open>providerFetchTokenRef.current\<close>. An invocation of \<open>refreshSingleProviderModels\<close> runs up
  to its \<open>await\<close> (\<open>refreshBegin\<close>: lines 1051 to 1060), and after the resolution from the
  token check to the end (\<open>refreshSettle\<close>: lines 1062 to 1095); between the two, other
  invocations run.
  \<^verbatim>\<open>
      const nextToken = (providerFetchTokenRef.current[entry.id] ?? 0) + 1;
      providerFetchTokenRef.current[entry.id] = nextToken;
      setModelsByProvider((prev) => ({
        ...prev,
        [entry.id]: { status: 'loading', models: prev[entry.id]?.models ?? [] },
      }));
      try {
        const models =
          entry.sourceKind === 'configured-api'
            ? dedupeModels(entry.configuredModels ?? [])
            : await fetchAuthProxyModels(entry);
        if (providerFetchTokenRef.current[entry.id] !== nextToken) return;
        setModelsByProvider((prev) => ({
          ...prev,
          [entry.id]: { status: 'success', models },
        }));
      } catch (error: unknown) {
        if (providerFetchTokenRef.current[entry.id] !== nextToken) return;
        const message =
          error instanceof Error
            ? error.message
            : typeof error === 'string'
              ? error
              : t('api_endpoints.models_load_failed');
        setModelsByProvider((prev) => ({
          ...prev,
          [entry.id]: { status: 'error', models: prev[entry.id]?.models ?? [], error: message },
        }));
      }
  \<close>
  The translated text \<open>t('api_endpoints.models_load_failed')\<close> is the parameter
  \<open>fallback\<close>.
\<close>

record PageState =
  providerFetchToken :: "string \<rightharpoonup> nat"
  modelsByProvider :: "string \<rightharpoonup> ProviderModelsState"

definition prevModels :: "(string \<rightharpoonup> ProviderModelsState) \<Rightarrow> string \<Rightarrow> ModelInfo list" where
  "prevModels prev i = (case prev i of None \<Rightarrow> [] | Some st \<Rightarrow> models st)"

definition loadingState :: "(string \<rightharpoonup> ProviderModelsState) \<Rightarrow> string \<Rightarrow> ProviderModelsState" where
  "loadingState prev i = \<lparr> status = Loading, models = prevModels prev i, error = None \<rparr>"

fun errorMessage :: "string \<Rightarrow> thrown \<Rightarrow> string" where
  "errorMessage fallback (ErrorObj m) = m"
| "errorMessage fallback (ThrownVal (JStr s)) = s"
| "errorMessage fallback (ThrownVal v) = fallback"

definition nextTokenOf :: "PageState \<Rightarrow> string \<Rightarrow> nat" where
  "nextTokenOf s i = (case providerFetchToken s i of None \<Rightarrow> 0 | Some n \<Rightarrow> n) + 1"

definition refreshBegin :: "EndpointProviderEntry \<Rightarrow> PageState \<Rightarrow> PageState" where
  "refreshBegin entry s =
     \<lparr> providerFetchToken = (providerFetchToken s)(entry_id entry \<mapsto> nextTokenOf s (entry_id entry)),
       modelsByProvider =
         (modelsByProvider s)(entry_id entry \<mapsto> loadingState (modelsByProvider s) (entry_id entry)) \<rparr>"

definition refreshSettle ::
  "string \<Rightarrow> EndpointProviderEntry \<Rightarrow> nat \<Rightarrow> thrown + ModelInfo list \<Rightarrow> PageState \<Rightarrow> PageState" where
  "refreshSettle fallback entry nextToken outcome s =
     (if providerFetchToken s (entry_id entry) \<noteq> Some nextToken then s
      else (case outcome of
              Inr models' \<Rightarrow>
                s \<lparr> modelsByProvider := (modelsByProvider s)(entry_id entry \<mapsto>
                      \<lparr> status = Success, models = models', error = None \<rparr>) \<rparr>
            | Inl e \<Rightarrow>
                s \<lparr> modelsByProvider := (modelsByProvider s)(entry_id entry \<mapsto>
                      \<lparr> status = Error,
                        models = prevModels (modelsByProvider s) (entry_id entry),
                        error = Some (errorMessage fallback e) \<rparr>) \<rparr>))"

text \<open>An entry of kind \<open>configured-api\<close> has no \<open>await\<close> on its path: the invocation
  runs from its first line to its last without another one in between.\<close>

definition refreshConfigured :: "string \<Rightarrow> EndpointProviderEntry \<Rightarrow> PageState \<Rightarrow> PageState" where
  "refreshConfigured fallback entry s =
     refreshSettle fallback entry (nextTokenOf s (entry_id entry))
       (Inr (dedupeModels (orEmpty (configuredModels entry))))
       (refreshBegin entry s)"

text \<open>
  \<open>refreshAllProviderModels\<close> first replaces the whole map (lines 1102 to 1116), then calls
  \<open>refreshSingleProviderModels\<close> on the entries, four at a time. Every id of an entry
  starts with \<open>configured:\<close> or \<open>auth:\<close> (lines 341 to 473), so \<open>prev[entry.id]\<close> and
  \<open>next[entry.id]\<close> meet own properties of the object only, and the object is a partial
  function on the ids.
  \<^verbatim>\<open>
      if (!entries.length) {
        setModelsByProvider({});
        return;
      }
      setModelsByProvider((prev) => {
        const next: Record<string, ProviderModelsState> = {};
        entries.forEach((entry) => {
          next[entry.id] = { status: 'loading', models: prev[entry.id]?.models ?? [] };
        });
        return next;
      });
  \<close>
\<close>

fun markLoadingLoop ::
  "(string \<rightharpoonup> ProviderModelsState) \<Rightarrow> (string \<rightharpoonup> ProviderModelsState) \<Rightarrow>
   EndpointProviderEntry list \<Rightarrow> (string \<rightharpoonup> ProviderModelsState)" where
  "markLoadingLoop prev next [] = next"
| "markLoadingLoop prev next (entry # rest) =
     markLoadingLoop prev (next(entry_id entry \<mapsto> loadingState prev (entry_id entry))) rest"

definition refreshAllBegin :: "EndpointProviderEntry list \<Rightarrow> PageState \<Rightarrow> PageState" where
  "refreshAllBegin entries s =
     (if entries = [] then s \<lparr> modelsByProvider := Map.empty \<rparr>
      else s \<lparr> modelsByProvider := markLoadingLoop (modelsByProvider s) Map.empty entries \<rparr>)"

text \<open>
  The moves of the orchestrator on the page state: the two halves of a single refresh, the
  first phase of a refresh of all entries, and the reset of the map when the page loses its
  connection.
\<close>

inductive orchestratorStep :: "string \<Rightarrow> PageState \<Rightarrow> PageState \<Rightarrow> bool" where
  stepBegin: "orchestratorStep fallback s (refreshBegin entry s)"
| stepSettle: "orchestratorStep fallback s (refreshSettle fallback entry tok outcome s)"
| stepAll: "orchestratorStep fallback s (refreshAllBegin entries s)"
| stepReset: "orchestratorStep fallback s (s \<lparr> modelsByProvider := Map.empty \<rparr>)"

section \<open>Thinking levels\<close>

datatype ThinkingLevel = Low | Medium | High | XHigh

fun levelText :: "ThinkingLevel \<Rightarrow> string" where
  "levelText Low = ''low''"
| "levelText Medium = ''medium''"
| "levelText High = ''high''"
| "levelText XHigh = ''xhigh''"

definition parseLevel :: "string \<Rightarrow> ThinkingLevel option" where
  "parseLevel s =
     (if s = ''low'' then Some Low
      else if s = ''medium'' then Some Medium
      else if s = ''high'' then Some High
      else if s = ''xhigh'' then Some XHigh
      else None)"

record ParsedModel =
  baseModel :: string
  thinking :: "ThinkingLevel option"

text \<open>
  \<^verbatim>\<open>
  const parseModelWithThinking = (value: string) => {
    const normalized = normalizeText(value);
    if (!normalized) {
      return { baseModel: '', thinking: null };
    }
    const match = normalized.match(/^(.*)\(([^()]+)\)$/);
    if (!match) {
      return { baseModel: normalized, thinking: null };
    }
    const baseModel = normalizeText(match[1]);
    const rawLevel = normalizeText(match[2]).toLowerCase() as ThinkingLevel;
    if (baseModel && THINKING_LEVEL_SET.has(rawLevel)) {
      return { baseModel, thinking: rawLevel };
    }
    return { baseModel: normalized, thinking: null };
  };
  \<close>
  The expression is matched as the engine does it. The first group is greedy and gives
  characters back one at a time; it holds no line terminator, since the dot matches none.
  At each length, the rest must be an opening parenthesis, the longest run of characters
  other than parentheses, which must not be empty, and a closing parenthesis at the end of
  the input.
\<close>

definition isParen :: "char \<Rightarrow> bool" where
  "isParen c = (c = CHR ''('' \<or> c = CHR '')'')"

fun groupTail :: "string \<Rightarrow> string option" where
  "groupTail [] = None"
| "groupTail (c # body) =
     (if c = CHR ''(''
         \<and> takeWhile (\<lambda>x. \<not> isParen x) body \<noteq> []
         \<and> dropWhile (\<lambda>x. \<not> isParen x) body = '')''
      then Some (takeWhile (\<lambda>x. \<not> isParen x) body) else None)"

definition tryPrefix :: "nat \<Rightarrow> string \<Rightarrow> (string \<times> string) option" where
  "tryPrefix i s =
     (if list_ex isLineTerminator (take i s) then None
      else map_option (Pair (take i s)) (groupTail (drop i s)))"

fun prefixSearch :: "nat \<Rightarrow> string \<Rightarrow> (string \<times> string) option" where
  "prefixSearch 0 s = tryPrefix 0 s"
| "prefixSearch (Suc i) s =
     (case tryPrefix (Suc i) s of Some r \<Rightarrow> Some r | None \<Rightarrow> prefixSearch i s)"

definition matchThinking :: "string \<Rightarrow> (string \<times> string) option" where
  "matchThinking s = prefixSearch (length s) s"

definition parseModelWithThinking :: "string \<Rightarrow> ParsedModel" where
  "parseModelWithThinking v =
     (let normalized = normalizeText (JStr v) in
      if normalized = [] then \<lparr> baseModel = [], thinking = None \<rparr>
      else (case matchThinking normalized of
              None \<Rightarrow> \<lparr> baseModel = normalized, thinking = None \<rparr>
            | Some m \<Rightarrow>
                let baseModel' = normalizeText (JStr (fst m));
                    rawLevel = toLowerCase (normalizeText (JStr (snd m)))
                in (case parseLevel rawLevel of
                      Some lv \<Rightarrow>
                        if baseModel' \<noteq> [] then \<lparr> baseModel = baseModel', thinking = Some lv \<rparr>
                        else \<lparr> baseModel = normalized, thinking = None \<rparr>
                    | None \<Rightarrow> \<lparr> baseModel = normalized, thinking = None \<rparr>)))"

text \<open>
  \<^verbatim>\<open>
  const formatModelWithThinking = (baseModel: string, thinking: ThinkingLevel | null): string => {
    const normalized = normalizeText(baseModel);
    if (!normalized) return '';
    if (!thinking) return normalized;
    return `${normalized}(${thinking})`;
  };
  \<close>
\<close>

definition formatModelWithThinking :: "string \<Rightarrow> ThinkingLevel option \<Rightarrow> string" where
  "formatModelWithThinking baseModel' thinking' =
     (let normalized = normalizeText (JStr baseModel') in
      if normalized = [] then []
      else (case thinking' of
              None \<Rightarrow> normalized
            | Some lv \<Rightarrow> normalized @ ''('' @ levelText lv @ '')''))"

section \<open>Facts about strings and first occurrences\<close>


lemma dropWhile_rev_dropWhile:
  "dropWhile P (rev (dropWhile P (rev (dropWhile P s)))) = rev (dropWhile P (rev (dropWhile P s)))"
proof (cases "dropWhile P (rev (dropWhile P s)) = []")
  case True
  show ?thesis unfolding True by simp
next
  case False
  define t where "t = dropWhile P s"
  define u where "u = dropWhile P (rev t)"
  from False have une: "u \<noteq> []" by (simp add: u_def t_def)
  then have tne: "t \<noteq> []" by (auto simp: u_def)
  have "\<not> P (hd t)" unfolding t_def using tne hd_dropWhile t_def by blast
  moreover have "last u = hd t"
  proof -
    obtain ys where "rev t = ys @ u" unfolding u_def
      by (metis takeWhile_dropWhile_id)
    then have "last (rev t) = last u" using une by simp
    then show ?thesis using tne by (simp add: last_rev)
  qed
  ultimately have "\<not> P (hd (rev u))" using une by (simp add: hd_rev)
  then have "dropWhile P (rev u) = rev u" using une by (cases "rev u") auto
  then show ?thesis by (simp add: u_def t_def)
qed

lemma trim_idem: "trim (trim s) = trim s"
proof -
  have "dropWhile isBlank (dropWhile isBlank (rev (dropWhile isBlank s))) = dropWhile isBlank (rev (dropWhile isBlank s))"
    by (simp add: dropWhile_idem)
  then show ?thesis
    unfolding trim_def by (simp add: dropWhile_rev_dropWhile)
qed

lemma trim_Nil: "trim [] = []" by (simp add: trim_def)

lemma normalizeText_JStr: "normalizeText (JStr s) = trim s"
  by (simp add: normalizeText_def coalesce_def)

lemma normalizeText_optStr:
  "normalizeText (optStr x) = (case x of None \<Rightarrow> [] | Some s \<Rightarrow> trim s)"
  by (cases x) (simp_all add: normalizeText_def coalesce_def optStr_def trim_Nil)

lemma distinct_firstOcc: "distinct (map f (firstOcc f xs))"
proof (induction xs)
  case Nil then show ?case by simp
next
  case (Cons x xs)
  have "distinct (map f (filter (\<lambda>y. f y \<noteq> f x) (firstOcc f xs)))"
    using Cons.IH by (simp add: distinct_map_filter)
  then show ?case by auto
qed

lemma firstOcc_distinct: "distinct (map f xs) \<Longrightarrow> firstOcc f xs = xs"
proof (induction xs)
  case Nil then show ?case by simp
next
  case (Cons x xs)
  from Cons.prems have "f x \<notin> f ` set xs" by simp
  then have "\<forall>y \<in> set xs. f y \<noteq> f x"
    by (metis imageI)
  then have "filter (\<lambda>y. f y \<noteq> f x) xs = xs"
    by simp
  with Cons show ?case by simp
qed

lemma set_firstOcc: "set (firstOcc f xs) \<subseteq> set xs"
  by (induction xs) auto

lemma dedupeLoop_firstOcc:
  "dedupeLoop seen result ms =
     result @ map dedupeNext
       (filter (\<lambda>m. modelKey m \<notin> seen) (firstOcc modelKey (filter (\<lambda>m. trim (name m) \<noteq> []) ms)))"
proof (induction ms arbitrary: seen result)
  case Nil
  then show ?case by simp
next
  case (Cons m ms)
  let ?V = "firstOcc modelKey (filter (\<lambda>m. trim (name m) \<noteq> []) ms)"
  show ?case
  proof (cases "trim (name m) = []")
    case True
    then show ?thesis using Cons.IH [of seen result] by (simp add: normalizeText_JStr)
  next
    case ne: False
    show ?thesis
    proof (cases "modelKey m \<in> seen")
      case True
      have "filter (\<lambda>y. modelKey y \<notin> seen) (filter (\<lambda>y. modelKey y \<noteq> modelKey m) ?V)
            = filter (\<lambda>y. modelKey y \<notin> seen) ?V"
        using True by (auto simp: filter_filter intro!: filter_cong)
      then show ?thesis
        using ne True Cons.IH [of seen result]
        by (simp add: normalizeText_JStr modelKey_def [symmetric] Let_def)
    next
      case False
      have "filter (\<lambda>y. modelKey y \<notin> insert (modelKey m) seen) ?V
            = filter (\<lambda>y. modelKey y \<notin> seen) (filter (\<lambda>y. modelKey y \<noteq> modelKey m) ?V)"
        by (auto simp: filter_filter intro!: filter_cong)
      then show ?thesis
        using ne False Cons.IH [of "insert (modelKey m) seen" "result @ [dedupeNext m]"]
        by (simp add: normalizeText_JStr modelKey_def [symmetric] Let_def)
    qed
  qed
qed

lemma dedupeModels_firstOcc:
  "dedupeModels ms = map dedupeNext (firstOcc modelKey (filter (\<lambda>m. trim (name m) \<noteq> []) ms))"
  by (simp add: dedupeModels_def dedupeLoop_firstOcc)

lemma dedupeNext_fields:
  "dedupeNext m =
     \<lparr> name = trim (name m),
       alias = (case alias m of
                  None \<Rightarrow> None
                | Some a \<Rightarrow> if trim a \<noteq> [] \<and> toLowerCase (trim a) \<noteq> toLowerCase (trim (name m))
                            then Some (trim a) else None),
       description = (case description m of
                        None \<Rightarrow> None
                      | Some d \<Rightarrow> if trim d \<noteq> [] then Some (trim d) else None) \<rparr>"
  by (simp add: dedupeNext_def Let_def normalizeText_JStr normalizeText_optStr split: option.splits)

lemma dedupeNext_idem: "dedupeNext (dedupeNext m) = dedupeNext m"
  by (simp add: dedupeNext_fields trim_idem split: option.splits)

lemma modelKey_dedupeNext: "modelKey (dedupeNext m) = modelKey m"
  by (simp add: dedupeNext_fields modelKey_def trim_idem)

lemma firstOcc_valid:
  "\<forall>m \<in> set (firstOcc modelKey (filter (\<lambda>m. trim (name m) \<noteq> []) ms)). trim (name m) \<noteq> []"
  using set_firstOcc [of modelKey "filter (\<lambda>m. trim (name m) \<noteq> []) ms"] by auto

lemma filter_valid_dedupeNext:
  "\<forall>m \<in> set V. trim (name m) \<noteq> [] \<Longrightarrow>
   filter (\<lambda>m. trim (name m) \<noteq> []) (map dedupeNext V) = map dedupeNext V"
  by (simp add: dedupeNext_fields trim_idem filter_map o_def)

lemma dedupeModels_fixed:
  assumes "\<forall>m \<in> set V. trim (name m) \<noteq> []" and "distinct (map modelKey V)"
  shows "dedupeModels (map dedupeNext V) = map dedupeNext V"
proof -
  have "map modelKey (map dedupeNext V) = map modelKey V"
    by (simp add: modelKey_dedupeNext)
  then have d: "distinct (map modelKey (map dedupeNext V))"
    using assms(2) by (simp only:)
  have "dedupeModels (map dedupeNext V) = map dedupeNext (firstOcc modelKey (map dedupeNext V))"
    unfolding dedupeModels_firstOcc [of "map dedupeNext V"]
    by (simp only: filter_valid_dedupeNext [OF assms(1)])
  also have "\<dots> = map dedupeNext (map dedupeNext V)"
    by (simp only: firstOcc_distinct [OF d])
  also have "\<dots> = map dedupeNext V"
    by (simp add: dedupeNext_idem)
  finally show ?thesis .
qed

lemma dedupeModels_idem: "dedupeModels (dedupeModels ms) = dedupeModels ms"
  unfolding dedupeModels_firstOcc [of ms]
  by (rule dedupeModels_fixed [OF firstOcc_valid distinct_firstOcc])

section \<open>The mask of a key\<close>

lemma plainOf_append: "plainOf (xs @ ys) = plainOf xs @ plainOf ys"
  by (induction xs rule: plainOf.induct) simp_all

lemma plainOf_Plain: "plainOf (map Plain s) = s"
  by (induction s) simp_all

lemma plainOf_Bullets: "plainOf (replicate n Bullet) = []"
  by (induction n) simp_all

text \<open>
  C10. A key of at most 8 code units is masked as eight bullets, whatever the key is. A key
  of 9 or more is masked as its first five code units, \<open>min (length - 8) 16\<close> bullets and
  its last four code units. For a key of exactly 9 code units that is the first five, one
  bullet and the remaining four: erasing the bullet from the mask gives the key back, so the
  mask discloses the whole key.
\<close>

theorem maskKey_shape:
  "(length key \<le> 8 \<longrightarrow> maskKey key = replicate 8 Bullet \<and> plainOf (maskKey key) = [])
   \<and> (9 \<le> length key \<longrightarrow>
        maskKey key = map Plain (take 5 key)
                      @ replicate (min (length key - 8) 16) Bullet
                      @ map Plain (drop (length key - 4) key))
   \<and> (length key = 9 \<longrightarrow>
        maskKey key = map Plain (take 5 key) @ [Bullet] @ map Plain (drop 5 key)
        \<and> plainOf (maskKey key) = key)"
proof (intro conjI impI)
  assume "length key \<le> 8"
  then show "maskKey key = replicate 8 Bullet" by (simp add: maskKey_def)
  then show "plainOf (maskKey key) = []" by (simp only: plainOf_Bullets)
next
  assume "9 \<le> length key"
  then show "maskKey key = map Plain (take 5 key)
                      @ replicate (min (length key - 8) 16) Bullet
                      @ map Plain (drop (length key - 4) key)"
    by (simp add: maskKey_def)
next
  assume n: "length key = 9"
  then show m: "maskKey key = map Plain (take 5 key) @ [Bullet] @ map Plain (drop 5 key)"
    by (simp add: maskKey_def)
  show "plainOf (maskKey key) = key"
    unfolding m by (simp add: plainOf_append plainOf_Plain)
qed

theorem maskKey_shape_witness:
  "length ''12345678'' \<le> 8 \<and> maskKey ''12345678'' = replicate 8 Bullet
   \<and> 9 \<le> length ''sk-abcdefghijklmnopqrstuvwxyz0123''
   \<and> maskKey ''sk-abcdefghijklmnopqrstuvwxyz0123''
       = map Plain ''sk-ab'' @ replicate 16 Bullet @ map Plain ''0123''
   \<and> length ''abcdefghi'' = 9
   \<and> maskKey ''abcdefghi'' = map Plain ''abcde'' @ [Bullet] @ map Plain ''fghi''
   \<and> plainOf (maskKey ''abcdefghi'') = ''abcdefghi''"
  using maskKey_shape [of "''12345678''"]
        maskKey_shape [of "''sk-abcdefghijklmnopqrstuvwxyz0123''"]
        maskKey_shape [of "''abcdefghi''"]
  by (simp add: eval_nat_numeral)

section \<open>Deduplicating a model list\<close>

text \<open>
  C8. \<open>dedupeModels\<close> is idempotent. Its output is in first-seen order: it is the list of
  the models whose trimmed name is not empty, each kept where its key (the trimmed name in
  lower case) first occurs, and each rewritten by \<open>dedupeNext\<close>, so the keys of the output
  are distinct. \<open>dedupeNext\<close> trims the name, keeps the trimmed alias unless it is empty or
  equals the name up to case, and keeps the trimmed description unless it is empty.
\<close>

theorem dedupeModels_idempotent_first_seen:
  "dedupeModels (dedupeModels ms) = dedupeModels ms
   \<and> dedupeModels ms
       = map dedupeNext (firstOcc modelKey (filter (\<lambda>m. trim (name m) \<noteq> []) ms))
   \<and> distinct (map modelKey (dedupeModels ms))
   \<and> dedupeNext m =
       \<lparr> name = trim (name m),
         alias = (case alias m of
                    None \<Rightarrow> None
                  | Some a \<Rightarrow> if trim a \<noteq> [] \<and> toLowerCase (trim a) \<noteq> toLowerCase (trim (name m))
                              then Some (trim a) else None),
         description = (case description m of
                          None \<Rightarrow> None
                        | Some d \<Rightarrow> if trim d \<noteq> [] then Some (trim d) else None) \<rparr>"
proof (intro conjI)
  show "dedupeModels (dedupeModels ms) = dedupeModels ms"
    by (rule dedupeModels_idem)
  show "dedupeModels ms
       = map dedupeNext (firstOcc modelKey (filter (\<lambda>m. trim (name m) \<noteq> []) ms))"
    by (rule dedupeModels_firstOcc)
  have "map modelKey (dedupeModels ms)
        = map modelKey (firstOcc modelKey (filter (\<lambda>m. trim (name m) \<noteq> []) ms))"
    by (simp add: dedupeModels_firstOcc modelKey_dedupeNext)
  then show "distinct (map modelKey (dedupeModels ms))"
    by (simp only: distinct_firstOcc)
  show "dedupeNext m =
       \<lparr> name = trim (name m),
         alias = (case alias m of
                    None \<Rightarrow> None
                  | Some a \<Rightarrow> if trim a \<noteq> [] \<and> toLowerCase (trim a) \<noteq> toLowerCase (trim (name m))
                              then Some (trim a) else None),
         description = (case description m of
                          None \<Rightarrow> None
                        | Some d \<Rightarrow> if trim d \<noteq> [] then Some (trim d) else None) \<rparr>"
    by (rule dedupeNext_fields)
qed

theorem dedupeModels_idempotent_first_seen_witness:
  "dedupeModels (dedupeModels
       [\<lparr> name = '' GPT-4 '', alias = Some ''gpt-4'', description = Some ''  '' \<rparr>,
        \<lparr> name = ''gpt-4'', alias = Some ''other'', description = None \<rparr>,
        \<lparr> name = ''   '', alias = None, description = None \<rparr>,
        \<lparr> name = ''Claude'', alias = Some '' Sonnet '', description = Some ''fast'' \<rparr>])
   = [\<lparr> name = ''GPT-4'', alias = None, description = None \<rparr>,
      \<lparr> name = ''Claude'', alias = Some ''Sonnet'', description = Some ''fast'' \<rparr>]"
proof -
  have "dedupeModels
       [\<lparr> name = '' GPT-4 '', alias = Some ''gpt-4'', description = Some ''  '' \<rparr>,
        \<lparr> name = ''gpt-4'', alias = Some ''other'', description = None \<rparr>,
        \<lparr> name = ''   '', alias = None, description = None \<rparr>,
        \<lparr> name = ''Claude'', alias = Some '' Sonnet '', description = Some ''fast'' \<rparr>]
   = [\<lparr> name = ''GPT-4'', alias = None, description = None \<rparr>,
      \<lparr> name = ''Claude'', alias = Some ''Sonnet'', description = Some ''fast'' \<rparr>]"
    by code_simp
  then show ?thesis
    using dedupeModels_idempotent_first_seen
      [of "[\<lparr> name = '' GPT-4 '', alias = Some ''gpt-4'', description = Some ''  '' \<rparr>,
        \<lparr> name = ''gpt-4'', alias = Some ''other'', description = None \<rparr>,
        \<lparr> name = ''   '', alias = None, description = None \<rparr>,
        \<lparr> name = ''Claude'', alias = Some '' Sonnet '', description = Some ''fast'' \<rparr>]"]
    by metis
qed

section \<open>Reading a list of API keys\<close>

lemma apiKeyLoop_firstOcc:
  "apiKeyLoop seen keys items =
     keys @ filter (\<lambda>k. toLowerCase k \<notin> seen) (firstOcc toLowerCase (trimmedKeys items))"
proof (induction items arbitrary: seen keys)
  case Nil
  then show ?case by (simp add: trimmedKeys_def)
next
  case (Cons item items)
  let ?k = "normalizeText (apiKeyValue item)"
  let ?V = "firstOcc toLowerCase (trimmedKeys items)"
  have tk: "trimmedKeys (item # items) = (if ?k = [] then trimmedKeys items else ?k # trimmedKeys items)"
    by (simp add: trimmedKeys_def)
  show ?case
  proof (cases "?k = []")
    case True
    then show ?thesis using Cons.IH [of seen keys] by (simp add: tk)
  next
    case ne: False
    show ?thesis
    proof (cases "toLowerCase ?k \<in> seen")
      case True
      have "filter (\<lambda>y. toLowerCase y \<notin> seen) (filter (\<lambda>y. toLowerCase y \<noteq> toLowerCase ?k) ?V)
            = filter (\<lambda>y. toLowerCase y \<notin> seen) ?V"
        using True by (auto simp: filter_filter intro!: filter_cong)
      then show ?thesis
        using ne True Cons.IH [of seen keys] by (simp add: tk Let_def)
    next
      case False
      have "filter (\<lambda>y. toLowerCase y \<notin> insert (toLowerCase ?k) seen) ?V
            = filter (\<lambda>y. toLowerCase y \<notin> seen) (filter (\<lambda>y. toLowerCase y \<noteq> toLowerCase ?k) ?V)"
        by (auto simp: filter_filter intro!: filter_cong)
      then show ?thesis
        using ne False Cons.IH [of "insert (toLowerCase ?k) seen" "keys @ [?k]"]
        by (simp add: tk Let_def)
    qed
  qed
qed

lemma apiKeyLoop_page_firstOcc:
  "apiKeyLoop_page seen keys items =
     keys @ filter (\<lambda>k. k \<notin> seen) (firstOcc (\<lambda>k. k) (trimmedKeys items))"
proof (induction items arbitrary: seen keys)
  case Nil
  then show ?case by (simp add: trimmedKeys_def)
next
  case (Cons item items)
  let ?k = "normalizeText (apiKeyValue item)"
  let ?V = "firstOcc (\<lambda>k. k) (trimmedKeys items)"
  have tk: "trimmedKeys (item # items) = (if ?k = [] then trimmedKeys items else ?k # trimmedKeys items)"
    by (simp add: trimmedKeys_def)
  have nt: "trim (jsString (coalesce (apiKeyValue item) (JStr []))) = ?k"
    by (simp add: normalizeText_def)
  show ?case
  proof (cases "?k = []")
    case True
    then show ?thesis using Cons.IH [of seen keys] by (simp add: tk nt)
  next
    case ne: False
    show ?thesis
    proof (cases "?k \<in> seen")
      case True
      have "filter (\<lambda>y. y \<notin> seen) (filter (\<lambda>y. y \<noteq> ?k) ?V) = filter (\<lambda>y. y \<notin> seen) ?V"
        using True by (auto simp: filter_filter intro!: filter_cong)
      then show ?thesis
        using ne True Cons.IH [of seen keys] by (simp add: tk nt Let_def)
    next
      case False
      have "filter (\<lambda>y. y \<notin> insert ?k seen) ?V
            = filter (\<lambda>y. y \<notin> seen) (filter (\<lambda>y. y \<noteq> ?k) ?V)"
        by (auto simp: filter_filter intro!: filter_cong)
      then show ?thesis
        using ne False Cons.IH [of "insert ?k seen" "keys @ [?k]"]
        by (simp add: tk nt Let_def)
    qed
  qed
qed

lemma apiKeyValue_object:
  "apiKeyValue (JObj r) =
     (case find (\<lambda>v. \<not> isNullish v) [getProp r ''api-key'', getProp r ''apiKey'', getProp r ''key''] of
        Some v \<Rightarrow> v
      | None \<Rightarrow> getProp r ''Key'')"
  by (simp add: coalesce_def)

text \<open>
  C2 (amended). \<open>normalizeApiKeyList\<close> returns, in their order, the trimmed keys that are
  not empty; the key of an element is the element itself when it is a string, and for an
  object the first of its fields \<open>api-key\<close>, \<open>apiKey\<close>, \<open>key\<close>, \<open>Key\<close> that is neither
  \<open>undefined\<close> nor \<open>null\<close>. The copy of the shared hook keeps a key where it first occurs up
  to case; the copy of the older endpoints page keeps it where it first occurs exactly. Both
  give \<open>["a", "b"]\<close> on the example of the specification.
\<close>

theorem normalizeApiKeyList_first_occurrence:
  "normalizeApiKeyList (JArr items) = firstOcc toLowerCase (trimmedKeys items)
   \<and> normalizeApiKeyList_page (JArr items) = firstOcc (\<lambda>k. k) (trimmedKeys items)
   \<and> apiKeyValue (JStr s) = JStr s
   \<and> apiKeyValue (JObj r) =
       (case find (\<lambda>v. \<not> isNullish v)
               [getProp r ''api-key'', getProp r ''apiKey'', getProp r ''key''] of
          Some v \<Rightarrow> v
        | None \<Rightarrow> getProp r ''Key'')
   \<and> normalizeApiKeyList
         (JArr [JObj [(''api-key'', JStr ''a'')], JStr ''a'', JObj [(''apiKey'', JStr ''b'')]])
       = [''a'', ''b'']
   \<and> normalizeApiKeyList_page
         (JArr [JObj [(''api-key'', JStr ''a'')], JStr ''a'', JObj [(''apiKey'', JStr ''b'')]])
       = [''a'', ''b'']"
proof (intro conjI)
  show "normalizeApiKeyList (JArr items) = firstOcc toLowerCase (trimmedKeys items)"
    by (simp add: apiKeyLoop_firstOcc)
  show "normalizeApiKeyList_page (JArr items) = firstOcc (\<lambda>k. k) (trimmedKeys items)"
    by (simp add: apiKeyLoop_page_firstOcc)
  show "apiKeyValue (JStr s) = JStr s" by simp
  show "apiKeyValue (JObj r) =
       (case find (\<lambda>v. \<not> isNullish v)
               [getProp r ''api-key'', getProp r ''apiKey'', getProp r ''key''] of
          Some v \<Rightarrow> v
        | None \<Rightarrow> getProp r ''Key'')"
    by (rule apiKeyValue_object)
  show "normalizeApiKeyList
         (JArr [JObj [(''api-key'', JStr ''a'')], JStr ''a'', JObj [(''apiKey'', JStr ''b'')]])
       = [''a'', ''b'']"
    by code_simp
  show "normalizeApiKeyList_page
         (JArr [JObj [(''api-key'', JStr ''a'')], JStr ''a'', JObj [(''apiKey'', JStr ''b'')]])
       = [''a'', ''b'']"
    by code_simp
qed

text \<open>
  The claim as stated (exact match) fails for the copy of the shared hook: of the two keys
  \<open>A\<close> and \<open>a\<close> it keeps the first only.
\<close>

theorem normalizeApiKeyList_case_counterexample:
  "normalizeApiKeyList (JArr [JStr ''A'', JStr ''a'']) = [''A'']
   \<and> normalizeApiKeyList_spec [JStr ''A'', JStr ''a''] = [''A'', ''a'']"
  by code_simp

section \<open>The two alias conventions\<close>

lemma dedupeModels_normal:
  assumes "\<forall>m \<in> set xs. trim (name m) \<noteq> [] \<and> dedupeNext m = m"
  shows "dedupeModels xs = firstOcc modelKey xs"
proof -
  have "filter (\<lambda>m. trim (name m) \<noteq> []) xs = xs"
    using assms by simp
  then have "dedupeModels xs = map dedupeNext (firstOcc modelKey xs)"
    by (simp only: dedupeModels_firstOcc)
  moreover have "map dedupeNext (firstOcc modelKey xs) = firstOcc modelKey xs"
    using assms set_firstOcc [of modelKey xs] by (intro map_idI) auto
  ultimately show ?thesis by simp
qed

lemma convertConfiguredModel_normal:
  assumes "convertConfiguredModel m = Some c"
  shows "trim (name c) \<noteq> [] \<and> dedupeNext c = c"
  using assms
  by (auto simp: convertConfiguredModel_def Let_def normalizeText_JStr normalizeText_optStr
        dedupeNext_fields trim_idem split: if_splits option.splits)

lemma normalizeAuthApiModel_normal:
  assumes "normalizeAuthApiModel m = Some c"
  shows "trim (name c) \<noteq> [] \<and> dedupeNext c = c"
  using assms
  by (auto simp: normalizeAuthApiModel_def Let_def normalizeText_JStr normalizeText_optStr
        dedupeNext_fields trim_idem split: if_splits option.splits)

lemma set_map_filter: "c \<in> set (List.map_filter f xs) \<Longrightarrow> \<exists>x \<in> set xs. f x = Some c"
  by (auto simp: List.map_filter_def)

lemma convertConfiguredModels_firstOcc:
  "convertConfiguredModels (Some ms) = firstOcc modelKey (List.map_filter convertConfiguredModel ms)"
  unfolding convertConfiguredModels_def option.case
  by (rule dedupeModels_normal) (metis set_map_filter convertConfiguredModel_normal)

lemma normalizeAuthApiModels_firstOcc:
  "normalizeAuthApiModels ms = firstOcc modelKey (List.map_filter normalizeAuthApiModel ms)"
  unfolding normalizeAuthApiModels_def
  by (rule dedupeModels_normal) (metis set_map_filter normalizeAuthApiModel_normal)

lemma convertConfiguredModel_flip:
  assumes "trim (cm_name m) \<noteq> []" and "cm_alias m = Some a" and "trim a \<noteq> []"
    and "toLowerCase (trim a) \<noteq> toLowerCase (trim (cm_name m))"
  shows "convertConfiguredModel m
         = Some \<lparr> name = trim a, alias = Some (trim (cm_name m)), description = None \<rparr>"
  using assms
  by (simp add: convertConfiguredModel_def Let_def normalizeText_JStr normalizeText_optStr)

lemma normalizeAuthApiModel_keep:
  assumes "trim (am_id m) \<noteq> []" and "am_display_name m = Some d" and "trim d \<noteq> []"
    and "toLowerCase (trim d) \<noteq> toLowerCase (trim (am_id m))"
  shows "normalizeAuthApiModel m
         = Some \<lparr> name = trim (am_id m), alias = Some (trim d), description = None \<rparr>"
  using assms
  by (simp add: normalizeAuthApiModel_def Let_def normalizeText_JStr normalizeText_optStr)

text \<open>
  C4 (amended). The two conversions use opposite alias conventions. A configured model whose
  trimmed name is not empty and whose trimmed alias is not empty and differs from the trimmed
  name up to case becomes the model named by the trimmed alias, with the trimmed name as its
  alias. A model of a credential file whose trimmed id is not empty and whose trimmed
  \<open>display_name\<close> is not empty and differs from the trimmed id up to case becomes the model
  named by the trimmed id, with the trimmed \<open>display_name\<close> as its alias. Each function
  returns the converted items in their order, one for each name up to case (the first), and
  gives the result of the specification on its example.
\<close>

theorem alias_conventions:
  "(trim (cm_name c) \<noteq> [] \<and> cm_alias c = Some a \<and> trim a \<noteq> []
      \<and> toLowerCase (trim a) \<noteq> toLowerCase (trim (cm_name c))
    \<longrightarrow> convertConfiguredModel c
          = Some \<lparr> name = trim a, alias = Some (trim (cm_name c)), description = None \<rparr>
        \<and> convertConfiguredModels (Some [c])
          = [\<lparr> name = trim a, alias = Some (trim (cm_name c)), description = None \<rparr>])
   \<and> (trim (am_id m) \<noteq> [] \<and> am_display_name m = Some d \<and> trim d \<noteq> []
      \<and> toLowerCase (trim d) \<noteq> toLowerCase (trim (am_id m))
    \<longrightarrow> normalizeAuthApiModel m
          = Some \<lparr> name = trim (am_id m), alias = Some (trim d), description = None \<rparr>
        \<and> normalizeAuthApiModels [m]
          = [\<lparr> name = trim (am_id m), alias = Some (trim d), description = None \<rparr>])
   \<and> convertConfiguredModels (Some cs)
       = firstOcc modelKey (List.map_filter convertConfiguredModel cs)
   \<and> normalizeAuthApiModels ms
       = firstOcc modelKey (List.map_filter normalizeAuthApiModel ms)
   \<and> convertConfiguredModels (Some [\<lparr> cm_name = ''gpt-4'', cm_alias = Some ''GPT-4 Turbo'' \<rparr>])
       = [\<lparr> name = ''GPT-4 Turbo'', alias = Some ''gpt-4'', description = None \<rparr>]
   \<and> normalizeAuthApiModels [\<lparr> am_id = ''gpt-4'', am_display_name = Some ''GPT-4 Turbo'' \<rparr>]
       = [\<lparr> name = ''gpt-4'', alias = Some ''GPT-4 Turbo'', description = None \<rparr>]"
proof (intro conjI impI)
  assume h: "trim (cm_name c) \<noteq> [] \<and> cm_alias c = Some a \<and> trim a \<noteq> []
      \<and> toLowerCase (trim a) \<noteq> toLowerCase (trim (cm_name c))"
  then show f: "convertConfiguredModel c
          = Some \<lparr> name = trim a, alias = Some (trim (cm_name c)), description = None \<rparr>"
    by (simp add: convertConfiguredModel_flip)
  show "convertConfiguredModels (Some [c])
          = [\<lparr> name = trim a, alias = Some (trim (cm_name c)), description = None \<rparr>]"
    by (simp add: convertConfiguredModels_firstOcc List.map_filter_simps f)
next
  assume h: "trim (am_id m) \<noteq> [] \<and> am_display_name m = Some d \<and> trim d \<noteq> []
      \<and> toLowerCase (trim d) \<noteq> toLowerCase (trim (am_id m))"
  then show f: "normalizeAuthApiModel m
          = Some \<lparr> name = trim (am_id m), alias = Some (trim d), description = None \<rparr>"
    by (simp add: normalizeAuthApiModel_keep)
  show "normalizeAuthApiModels [m]
          = [\<lparr> name = trim (am_id m), alias = Some (trim d), description = None \<rparr>]"
    by (simp add: normalizeAuthApiModels_firstOcc List.map_filter_simps f)
next
  show "convertConfiguredModels (Some cs)
       = firstOcc modelKey (List.map_filter convertConfiguredModel cs)"
    by (rule convertConfiguredModels_firstOcc)
  show "normalizeAuthApiModels ms
       = firstOcc modelKey (List.map_filter normalizeAuthApiModel ms)"
    by (rule normalizeAuthApiModels_firstOcc)
  show "convertConfiguredModels (Some [\<lparr> cm_name = ''gpt-4'', cm_alias = Some ''GPT-4 Turbo'' \<rparr>])
       = [\<lparr> name = ''GPT-4 Turbo'', alias = Some ''gpt-4'', description = None \<rparr>]"
    by code_simp
  show "normalizeAuthApiModels [\<lparr> am_id = ''gpt-4'', am_display_name = Some ''GPT-4 Turbo'' \<rparr>]
       = [\<lparr> name = ''gpt-4'', alias = Some ''GPT-4 Turbo'', description = None \<rparr>]"
    by code_simp
qed

theorem alias_conventions_witness:
  "convertConfiguredModels (Some [\<lparr> cm_name = '' claude-3 '', cm_alias = Some ''Sonnet'' \<rparr>])
     = [\<lparr> name = ''Sonnet'', alias = Some ''claude-3'', description = None \<rparr>]
   \<and> normalizeAuthApiModels [\<lparr> am_id = '' claude-3 '', am_display_name = Some ''Sonnet'' \<rparr>]
     = [\<lparr> name = ''claude-3'', alias = Some ''Sonnet'', description = None \<rparr>]"
proof -
  have t: "trim '' claude-3 '' = ''claude-3''" "trim ''Sonnet'' = ''Sonnet''"
    "toLowerCase ''Sonnet'' \<noteq> toLowerCase ''claude-3''"
    by code_simp+
  show ?thesis
    using alias_conventions [of "\<lparr> cm_name = '' claude-3 '', cm_alias = Some ''Sonnet'' \<rparr>" "''Sonnet''"
        "\<lparr> am_id = '' claude-3 '', am_display_name = Some ''Sonnet'' \<rparr>" "''Sonnet''"]
    by (simp add: t)
qed

text \<open>
  The claim as stated fails on an item with an empty name, which has no output at all, and on
  an item whose alias repeats, up to case, the name that an earlier item produced: the second
  item below has a non-empty alias other than its name, and no model \<open>{name: x, alias: b}\<close>
  comes out.
\<close>

theorem alias_conventions_counterexample:
  "convertConfiguredModels (Some [\<lparr> cm_name = '''', cm_alias = Some ''x'' \<rparr>]) = []
   \<and> convertConfiguredModels
         (Some [\<lparr> cm_name = ''a'', cm_alias = Some ''X'' \<rparr>, \<lparr> cm_name = ''b'', cm_alias = Some ''x'' \<rparr>])
       = [\<lparr> name = ''X'', alias = Some ''a'', description = None \<rparr>]"
  by code_simp

section \<open>Provider entries of the credential files\<close>

lemma authGroupLoop_skip:
  "\<not> contributes file \<Longrightarrow> authGroupLoop g n (file # rest) = authGroupLoop g n rest"
  by (auto simp: contributes_def flaggedOff_def)

lemma authGroupLoop_existing:
  "contributes file \<Longrightarrow> map_of g (providerKeyOf file) = Some ex \<Longrightarrow>
   authGroupLoop g n (file # rest)
   = authGroupLoop (AList.update (providerKeyOf file)
        (ex \<lparr> files := setAdd (fileNameOf file) (files ex) \<rparr>) g) n rest"
  by (auto simp: contributes_def flaggedOff_def)

lemma authGroupLoop_new:
  "contributes file \<Longrightarrow> map_of g (providerKeyOf file) = None \<Longrightarrow>
   authGroupLoop g n (file # rest)
   = authGroupLoop (g @ [(providerKeyOf file,
        \<lparr> label = rawProviderOf file, group_order = n, files = [fileNameOf file] \<rparr>)]) (n + 1) rest"
  by (auto simp: contributes_def flaggedOff_def)

lemma authGroupLoop_filter:
  "authGroupLoop g n (filter contributes fs) = authGroupLoop g n fs"
proof (induction fs arbitrary: g n)
  case Nil
  then show ?case by simp
next
  case (Cons f fs)
  show ?case
  proof (cases "contributes f")
    case False
    then show ?thesis using Cons.IH by (simp add: authGroupLoop_skip del: authGroupLoop.simps)
  next
    case True
    show ?thesis
    proof (cases "map_of g (providerKeyOf f)")
      case None
      then show ?thesis using True Cons.IH
        by (simp add: authGroupLoop_new del: authGroupLoop.simps)
    next
      case (Some ex)
      then show ?thesis using True Cons.IH
        by (simp add: authGroupLoop_existing del: authGroupLoop.simps)
    qed
  qed
qed

lemma authGroupLoop_filter_flags:
  "authGroupLoop g n (filter (\<lambda>f. \<not> flaggedOff f) fs) = authGroupLoop g n fs"
proof -
  have "filter contributes (filter (\<lambda>f. \<not> flaggedOff f) fs) = filter contributes fs"
    by (auto simp: contributes_def intro!: filter_cong)
  then show ?thesis
    by (metis authGroupLoop_filter)
qed

lemma authGroupLoop_keys:
  "map fst (authGroupLoop g n fs)
   = map fst g @ filter (\<lambda>k. k \<notin> fst ` set g)
                    (firstOcc (\<lambda>k. k) (map providerKeyOf (filter contributes fs)))"
proof (induction fs arbitrary: g n)
  case Nil
  then show ?case by simp
next
  case (Cons f fs)
  let ?V = "firstOcc (\<lambda>k. k) (map providerKeyOf (filter contributes fs))"
  let ?k = "providerKeyOf f"
  show ?case
  proof (cases "contributes f")
    case False
    then show ?thesis using Cons.IH by (simp add: authGroupLoop_skip del: authGroupLoop.simps)
  next
    case True
    show ?thesis
    proof (cases "map_of g ?k")
      case None
      then have nin: "?k \<notin> fst ` set g" by (simp add: map_of_eq_None_iff)
      have "filter (\<lambda>y. y \<notin> insert ?k (fst ` set g)) ?V
            = filter (\<lambda>y. y \<notin> fst ` set g) (filter (\<lambda>y. y \<noteq> ?k) ?V)"
        by (auto simp: filter_filter intro!: filter_cong)
      then show ?thesis using True None nin Cons.IH
        by (simp add: authGroupLoop_new del: authGroupLoop.simps)
    next
      case (Some ex)
      then have kin: "?k \<in> fst ` set g" by (metis map_of_eq_None_iff option.distinct(1))
      let ?g' = "AList.update ?k (ex \<lparr> files := setAdd (fileNameOf f) (files ex) \<rparr>) g"
      have keys: "map fst ?g' = map fst g" using kin by (simp add: update_keys)
      then have dom: "fst ` set ?g' = fst ` set g" by (metis list.set_map)
      have "filter (\<lambda>y. y \<notin> fst ` set g) (filter (\<lambda>y. y \<noteq> ?k) ?V)
            = filter (\<lambda>y. y \<notin> fst ` set g) ?V"
        using kin by (auto simp: filter_filter intro!: filter_cong)
      then show ?thesis using True Some Cons.IH [of ?g' n] keys dom kin
        by (simp add: authGroupLoop_existing del: authGroupLoop.simps)
    qed
  qed
qed


lemma setAdd_firstOcc:
  "foldl (\<lambda>acc x. setAdd x acc) init xs
   = init @ filter (\<lambda>x. x \<notin> set init) (firstOcc (\<lambda>x. x) xs)"
proof (induction xs arbitrary: init)
  case Nil
  then show ?case by simp
next
  case (Cons x xs)
  let ?V = "firstOcc (\<lambda>x. x) xs"
  show ?case
  proof (cases "x \<in> set init")
    case True
    have "filter (\<lambda>y. y \<notin> set init) (filter (\<lambda>y. y \<noteq> x) ?V) = filter (\<lambda>y. y \<notin> set init) ?V"
      using True by (auto simp: filter_filter intro!: filter_cong)
    then show ?thesis using True Cons.IH [of init] by (simp add: setAdd_def)
  next
    case False
    have "filter (\<lambda>y. y \<notin> insert x (set init)) ?V
          = filter (\<lambda>y. y \<notin> set init) (filter (\<lambda>y. y \<noteq> x) ?V)"
      by (auto simp: filter_filter intro!: filter_cong)
    then show ?thesis using False Cons.IH [of "init @ [x]"] by (simp add: setAdd_def)
  qed
qed

lemma groupFiles_update_same:
  "groupFiles (AList.update k v g) k = files v"
  by (simp add: groupFiles_def update_conv')

lemma groupFiles_update_other:
  "k' \<noteq> k \<Longrightarrow> groupFiles (AList.update k' v g) k = groupFiles g k"
  by (simp add: groupFiles_def update_conv')

lemma groupFiles_append_same:
  "map_of g k = None \<Longrightarrow> groupFiles (g @ [(k, v)]) k = files v"
  by (simp add: groupFiles_def map_add_def)

lemma groupFiles_append_other:
  "k' \<noteq> k \<Longrightarrow> groupFiles (g @ [(k', v)]) k = groupFiles g k"
  by (simp add: groupFiles_def map_add_def split: option.splits)

lemma authGroupLoop_files:
  "groupFiles (authGroupLoop g n fs) k
   = foldl (\<lambda>acc x. setAdd x acc) (groupFiles g k)
       (map fileNameOf (filter (\<lambda>f. contributes f \<and> providerKeyOf f = k) fs))"
proof (induction fs arbitrary: g n)
  case Nil
  then show ?case by simp
next
  case (Cons f fs)
  show ?case
  proof (cases "contributes f")
    case False
    then show ?thesis using Cons.IH by (simp add: authGroupLoop_skip del: authGroupLoop.simps)
  next
    case True
    show ?thesis
    proof (cases "map_of g (providerKeyOf f)")
      case None
      show ?thesis
      proof (cases "providerKeyOf f = k")
        case same: True
        have "groupFiles g k = []" using None same by (simp add: groupFiles_def)
        then show ?thesis using True None same Cons.IH
          by (simp add: authGroupLoop_new groupFiles_append_same setAdd_def
                del: authGroupLoop.simps)
      next
        case other: False
        then show ?thesis using True None Cons.IH
          by (simp add: authGroupLoop_new groupFiles_append_other del: authGroupLoop.simps)
      qed
    next
      case (Some ex)
      show ?thesis
      proof (cases "providerKeyOf f = k")
        case same: True
        have "groupFiles g k = files ex" using Some same by (simp add: groupFiles_def)
        then show ?thesis using True Some same Cons.IH
          by (simp add: authGroupLoop_existing groupFiles_update_same del: authGroupLoop.simps)
      next
        case other: False
        then show ?thesis using True Some Cons.IH
          by (simp add: authGroupLoop_existing groupFiles_update_other del: authGroupLoop.simps)
      qed
    qed
  qed
qed

lemma update_orders:
  "map_of g k = Some ex \<Longrightarrow>
   map (\<lambda>row. group_order (snd row)) (AList.update k (ex \<lparr> files := x \<rparr>) g)
   = map (\<lambda>row. group_order (snd row)) g"
  by (induction g) (auto split: if_splits)

lemma update_set_orders:
  "map_of g k = Some ex \<Longrightarrow> r \<in> set (AList.update k (ex \<lparr> files := x \<rparr>) g) \<Longrightarrow>
   \<exists>r' \<in> set g. group_order (snd r') = group_order (snd r)"
  by (induction g) (auto split: if_splits)

lemma authGroupLoop_sorted:
  "sorted (map (\<lambda>row. group_order (snd row)) g) \<Longrightarrow> \<forall>r \<in> set g. group_order (snd r) < n \<Longrightarrow>
   sorted (map (\<lambda>row. group_order (snd row)) (authGroupLoop g n fs))"
proof (induction fs arbitrary: g n)
  case Nil
  then show ?case by simp
next
  case (Cons f fs)
  show ?case
  proof (cases "contributes f")
    case False
    then show ?thesis using Cons by (simp add: authGroupLoop_skip del: authGroupLoop.simps)
  next
    case True
    show ?thesis
    proof (cases "map_of g (providerKeyOf f)")
      case None
      let ?g' = "g @ [(providerKeyOf f,
        \<lparr> label = rawProviderOf f, group_order = n, files = [fileNameOf f] \<rparr>)]"
      have s: "sorted (map (\<lambda>row. group_order (snd row)) ?g')"
        using Cons.prems by (auto simp: sorted_append less_imp_le)
      have b: "\<forall>r \<in> set ?g'. group_order (snd r) < n + 1"
        using Cons.prems by auto
      show ?thesis using True None Cons.IH [OF s b]
        by (simp add: authGroupLoop_new del: authGroupLoop.simps)
    next
      case (Some ex)
      let ?g' = "AList.update (providerKeyOf f)
        (ex \<lparr> files := setAdd (fileNameOf f) (files ex) \<rparr>) g"
      have s: "sorted (map (\<lambda>row. group_order (snd row)) ?g')"
        using Cons.prems(1) by (simp only: update_orders [OF Some])
      have b: "\<forall>r \<in> set ?g'. group_order (snd r) < n"
        using Cons.prems(2) update_set_orders [OF Some] by metis
      show ?thesis using True Some Cons.IH [OF s b]
        by (simp add: authGroupLoop_existing del: authGroupLoop.simps)
    qed
  qed
qed


lemma buildAuthProviderEntries_rows:
  "buildAuthProviderEntries fs am em b ko = map (authEntry am em b ko) (authGroupLoop [] 0 fs)"
proof -
  have "sorted (map (\<lambda>row. group_order (snd row)) (authGroupLoop [] 0 fs))"
    by (rule authGroupLoop_sorted) simp_all
  then have "sort_key (\<lambda>row. group_order (snd row)) (authGroupLoop [] 0 fs) = authGroupLoop [] 0 fs"
    by (rule sort_key_id_if_sorted)
  then show ?thesis by (simp add: buildAuthProviderEntries_def)
qed

lemma authGroupLoop_keys0:
  "map fst (authGroupLoop [] 0 fs) = firstOcc (\<lambda>k. k) (map providerKeyOf (filter contributes fs))"
  using authGroupLoop_keys [of "[]" 0 fs] by simp

lemma authGroupLoop_row_files:
  assumes "row \<in> set (authGroupLoop [] 0 fs)"
  shows "files (snd row)
         = firstOcc (\<lambda>x. x)
             (map fileNameOf (filter (\<lambda>f. contributes f \<and> providerKeyOf f = fst row) fs))"
proof -
  have "distinct (map fst (authGroupLoop [] 0 fs))"
    unfolding authGroupLoop_keys0 using distinct_firstOcc [of "\<lambda>k. k"] by simp
  then have "map_of (authGroupLoop [] 0 fs) (fst row) = Some (snd row)"
    using assms by (cases row) simp
  then have "files (snd row) = groupFiles (authGroupLoop [] 0 fs) (fst row)"
    by (simp add: groupFiles_def)
  also have "\<dots> = firstOcc (\<lambda>x. x)
             (map fileNameOf (filter (\<lambda>f. contributes f \<and> providerKeyOf f = fst row) fs))"
    unfolding authGroupLoop_files by (simp add: groupFiles_def setAdd_firstOcc)
  finally show ?thesis .
qed

lemma authEntries_general:
  "buildAuthProviderEntries fs am em b ko
     = buildAuthProviderEntries (filter (\<lambda>f. \<not> flaggedOff f) fs) am em b ko
   \<and> map providerKey (buildAuthProviderEntries fs am em b ko)
     = firstOcc (\<lambda>k. k) (map providerKeyOf (filter contributes fs))
   \<and> distinct (map providerKey (buildAuthProviderEntries fs am em b ko))
   \<and> (\<forall>e \<in> set (buildAuthProviderEntries fs am em b ko).
        authFileNames e
        = Some (firstOcc (\<lambda>x. x)
            (map fileNameOf (filter (\<lambda>f. contributes f \<and> providerKeyOf f = providerKey e) fs))))
   \<and> (\<forall>f \<in> set fs. contributes f \<longrightarrow>
        (\<exists>e \<in> set (buildAuthProviderEntries fs am em b ko).
           providerKey e = providerKeyOf f \<and> fileNameOf f \<in> set (orEmpty (authFileNames e))))"
proof (intro conjI ballI impI)
  show "buildAuthProviderEntries fs am em b ko
     = buildAuthProviderEntries (filter (\<lambda>f. \<not> flaggedOff f) fs) am em b ko"
    by (simp add: buildAuthProviderEntries_rows authGroupLoop_filter_flags)
  show k: "map providerKey (buildAuthProviderEntries fs am em b ko)
     = firstOcc (\<lambda>k. k) (map providerKeyOf (filter contributes fs))"
    by (simp add: buildAuthProviderEntries_rows authEntry_def o_def authGroupLoop_keys0 [symmetric])
  show "distinct (map providerKey (buildAuthProviderEntries fs am em b ko))"
    unfolding k using distinct_firstOcc [of "\<lambda>k. k"] by simp
next
  fix e assume "e \<in> set (buildAuthProviderEntries fs am em b ko)"
  then obtain row where r: "row \<in> set (authGroupLoop [] 0 fs)" and e: "e = authEntry am em b ko row"
    by (auto simp: buildAuthProviderEntries_rows)
  show "authFileNames e
        = Some (firstOcc (\<lambda>x. x)
            (map fileNameOf (filter (\<lambda>f. contributes f \<and> providerKeyOf f = providerKey e) fs)))"
    using authGroupLoop_row_files [OF r] by (simp add: e authEntry_def)
next
  fix f assume f: "f \<in> set fs" and c: "contributes f"
  have "providerKeyOf f \<in> set (firstOcc (\<lambda>k. k) (map providerKeyOf (filter contributes fs)))"
  proof -
    have "set (firstOcc (\<lambda>k. k) xs) = set xs" for xs :: "string list"
      by (induction xs) auto
    then show ?thesis using f c by simp
  qed
  then have "providerKeyOf f \<in> fst ` set (authGroupLoop [] 0 fs)"
    by (metis authGroupLoop_keys0 list.set_map)
  then obtain row where r: "row \<in> set (authGroupLoop [] 0 fs)" and k: "fst row = providerKeyOf f"
    by auto
  let ?e = "authEntry am em b ko row"
  have "fileNameOf f \<in> set (map fileNameOf
          (filter (\<lambda>g. contributes g \<and> providerKeyOf g = providerKeyOf f) fs))"
    using f c by simp
  moreover have "set (firstOcc (\<lambda>x. x) xs) = set xs" for xs :: "string list"
    by (induction xs) auto
  ultimately have "fileNameOf f \<in> set (files (snd row))"
    unfolding authGroupLoop_row_files [OF r] k by simp
  then have "providerKey ?e = providerKeyOf f \<and> fileNameOf f \<in> set (orEmpty (authFileNames ?e))"
    using k by (simp add: authEntry_def orEmpty_def)
  moreover have "?e \<in> set (buildAuthProviderEntries fs am em b ko)"
    using r by (simp add: buildAuthProviderEntries_rows)
  ultimately show "\<exists>e \<in> set (buildAuthProviderEntries fs am em b ko).
           providerKey e = providerKeyOf f \<and> fileNameOf f \<in> set (orEmpty (authFileNames e))"
    by blast
qed


lemma authEntries_flag_example: "map (\<lambda>e. (providerKey e, authFileNames e))
       (buildAuthProviderEntries
          [\<lparr> file_name = ''a.json'', provider = Some ''codex'', file_type = None,
             disabled = JStr ''yes'', unavailable = JUndefined \<rparr>,
           \<lparr> file_name = ''b.json'', provider = Some ''gemini'', file_type = None,
             disabled = JStr ''no'', unavailable = JUndefined \<rparr>] (\<lambda>k. None) (\<lambda>k. None) [] [])
     = [(''gemini'', Some [''b.json''])]"
  by code_simp

lemma authEntries_merge_example: "map (\<lambda>e. (providerKey e, authFileNames e))
       (buildAuthProviderEntries
          [\<lparr> file_name = ''a.json'', provider = Some ''Codex'', file_type = None,
             disabled = JBool False, unavailable = JUndefined \<rparr>,
           \<lparr> file_name = ''b.json'', provider = None, file_type = Some ''codex'',
             disabled = JUndefined, unavailable = JNum NumZero \<rparr>] (\<lambda>k. None) (\<lambda>k. None) [] [])
     = [(''codex'', Some [''a.json'', ''b.json''])]"
  by code_simp


text \<open>
  C5 (amended). A file whose \<open>disabled\<close> or \<open>unavailable\<close> flag is truthy (\<open>isTruthyFlag\<close>:
  the boolean true, a number other than zero, or one of the strings true, 1, yes, y, on up to
  case and blanks) changes nothing in the result. A file contributes when neither flag is
  truthy, its provider key is not empty and its trimmed name is not empty. The entries have
  the distinct provider keys of the contributing files, each once, in the order of their
  first file, and the \<open>authFileNames\<close> of an entry are the trimmed names of the contributing
  files with its key, each once, in the order of their first occurrence: the name of every
  contributing file is in the entry of its key. A file with \<open>disabled: "yes"\<close> is left out
  and one with \<open>disabled: "no"\<close> is kept; two files of the same provider type give one
  entry with both names.
\<close>

theorem buildAuthProviderEntries_groups:
  "buildAuthProviderEntries fs am em b ko
     = buildAuthProviderEntries (filter (\<lambda>f. \<not> flaggedOff f) fs) am em b ko
   \<and> map providerKey (buildAuthProviderEntries fs am em b ko)
     = firstOcc (\<lambda>k. k) (map providerKeyOf (filter contributes fs))
   \<and> distinct (map providerKey (buildAuthProviderEntries fs am em b ko))
   \<and> (\<forall>e \<in> set (buildAuthProviderEntries fs am em b ko).
        authFileNames e
        = Some (firstOcc (\<lambda>x. x)
            (map fileNameOf (filter (\<lambda>f. contributes f \<and> providerKeyOf f = providerKey e) fs))))
   \<and> (\<forall>f \<in> set fs. contributes f \<longrightarrow>
        (\<exists>e \<in> set (buildAuthProviderEntries fs am em b ko).
           providerKey e = providerKeyOf f \<and> fileNameOf f \<in> set (orEmpty (authFileNames e))))
   \<and> map (\<lambda>e. (providerKey e, authFileNames e))
       (buildAuthProviderEntries
          [\<lparr> file_name = ''a.json'', provider = Some ''codex'', file_type = None,
             disabled = JStr ''yes'', unavailable = JUndefined \<rparr>,
           \<lparr> file_name = ''b.json'', provider = Some ''gemini'', file_type = None,
             disabled = JStr ''no'', unavailable = JUndefined \<rparr>] (\<lambda>k. None) (\<lambda>k. None) [] [])
     = [(''gemini'', Some [''b.json''])]
   \<and> map (\<lambda>e. (providerKey e, authFileNames e))
       (buildAuthProviderEntries
          [\<lparr> file_name = ''a.json'', provider = Some ''Codex'', file_type = None,
             disabled = JBool False, unavailable = JUndefined \<rparr>,
           \<lparr> file_name = ''b.json'', provider = None, file_type = Some ''codex'',
             disabled = JUndefined, unavailable = JNum NumZero \<rparr>] (\<lambda>k. None) (\<lambda>k. None) [] [])
     = [(''codex'', Some [''a.json'', ''b.json''])]"
  using authEntries_general [of fs am em b ko] authEntries_flag_example authEntries_merge_example
  by (elim conjE, intro conjI) assumption+

theorem buildAuthProviderEntries_groups_witness:
  "\<lparr> file_name = ''b.json'', provider = None, file_type = Some ''codex'',
      disabled = JUndefined, unavailable = JNum NumZero \<rparr>
     \<in> set [\<lparr> file_name = ''a.json'', provider = Some ''Codex'', file_type = None,
               disabled = JBool False, unavailable = JUndefined \<rparr>,
             \<lparr> file_name = ''b.json'', provider = None, file_type = Some ''codex'',
               disabled = JUndefined, unavailable = JNum NumZero \<rparr>]
   \<and> contributes \<lparr> file_name = ''b.json'', provider = None, file_type = Some ''codex'',
                    disabled = JUndefined, unavailable = JNum NumZero \<rparr>
   \<and> (\<exists>e \<in> set (buildAuthProviderEntries
          [\<lparr> file_name = ''a.json'', provider = Some ''Codex'', file_type = None,
             disabled = JBool False, unavailable = JUndefined \<rparr>,
           \<lparr> file_name = ''b.json'', provider = None, file_type = Some ''codex'',
             disabled = JUndefined, unavailable = JNum NumZero \<rparr>] (\<lambda>k. None) (\<lambda>k. None) [] []).
         providerKey e = ''codex'' \<and> ''b.json'' \<in> set (orEmpty (authFileNames e)))"
proof -
  let ?a = "\<lparr> file_name = ''a.json'', provider = Some ''Codex'', file_type = None,
             disabled = JBool False, unavailable = JUndefined \<rparr>"
  let ?b = "\<lparr> file_name = ''b.json'', provider = None, file_type = Some ''codex'',
             disabled = JUndefined, unavailable = JNum NumZero \<rparr>"
  note t = buildAuthProviderEntries_groups [of "[?a, ?b]" "\<lambda>k. None" "\<lambda>k. None" "[]" "[]"]
  note l = t [THEN conjunct2, THEN conjunct2, THEN conjunct2, THEN conjunct2, THEN conjunct1]
  have 1: "?b \<in> set [?a, ?b]" by simp
  have 2: "contributes ?b" by code_simp
  have 3: "providerKeyOf ?b = ''codex''" by code_simp
  have 4: "fileNameOf ?b = ''b.json''" by code_simp
  note e = l [rule_format, OF 1 2]
  show ?thesis
    by (intro conjI 1 2) (use e in \<open>unfold 3 4\<close>)
qed

text \<open>
  The claim as stated fails on a file whose flags are not set and whose name is empty: it
  remains after the flags are read, its provider key is \<open>codex\<close>, and no entry comes out. A
  file that remains and has neither \<open>provider\<close> nor \<open>type\<close> gives no entry either.
\<close>

theorem buildAuthProviderEntries_counterexample:
  "\<not> flaggedOff \<lparr> file_name = [], provider = Some ''codex'', file_type = None,
                   disabled = JUndefined, unavailable = JUndefined \<rparr>
   \<and> providerKeyOf \<lparr> file_name = [], provider = Some ''codex'', file_type = None,
                      disabled = JUndefined, unavailable = JUndefined \<rparr> = ''codex''
   \<and> buildAuthProviderEntries
         [\<lparr> file_name = [], provider = Some ''codex'', file_type = None,
            disabled = JUndefined, unavailable = JUndefined \<rparr>]
         (\<lambda>k. None) (\<lambda>k. None) [] [] = []
   \<and> \<not> flaggedOff \<lparr> file_name = ''x.json'', provider = None, file_type = None,
                     disabled = JStr ''no'', unavailable = JBool False \<rparr>
   \<and> buildAuthProviderEntries
         [\<lparr> file_name = ''x.json'', provider = None, file_type = None,
            disabled = JStr ''no'', unavailable = JBool False \<rparr>]
         (\<lambda>k. None) (\<lambda>k. None) [] [] = []"
  by code_simp

section \<open>Parsing and formatting a thinking level\<close>

lemma trim_fixed:
  assumes "s \<noteq> []" and "\<not> isBlank (hd s)" and "\<not> isBlank (last s)"
  shows "trim s = s"
proof -
  have 1: "dropWhile isBlank s = s" using assms(1,2) by (cases s) auto
  have "rev s \<noteq> []" and "\<not> isBlank (hd (rev s))" using assms(1,3) by (simp_all add: hd_rev)
  then have 2: "dropWhile isBlank (rev s) = rev s" by (cases "rev s") auto
  show ?thesis by (simp add: trim_def 1 2)
qed

lemma trim_ends:
  assumes "trim s \<noteq> []"
  shows "\<not> isBlank (hd (trim s))" and "\<not> isBlank (last (trim s))"
proof -
  define t where "t = dropWhile isBlank s"
  define u where "u = dropWhile isBlank (rev t)"
  have tr: "trim s = rev u" by (simp add: trim_def u_def t_def)
  have u: "u \<noteq> []" using assms by (simp add: tr)
  have t: "t \<noteq> []" using u by (auto simp: u_def)
  have "\<not> isBlank (hd u)" using u unfolding u_def by (rule hd_dropWhile)
  then show "\<not> isBlank (last (trim s))" using u by (simp add: tr last_rev)
  obtain ys where "rev t = ys @ u" unfolding u_def by (metis takeWhile_dropWhile_id)
  then have "last (rev t) = last u" using u by simp
  then have "last u = hd t" using t by (simp add: last_rev)
  moreover have "\<not> isBlank (hd t)" using t unfolding t_def by (rule hd_dropWhile)
  ultimately show "\<not> isBlank (hd (trim s))" using u by (simp add: tr hd_rev)
qed

lemma prefixSearch_skip:
  "k \<le> n \<Longrightarrow> (\<And>j. k < j \<Longrightarrow> j \<le> n \<Longrightarrow> tryPrefix j s = None) \<Longrightarrow>
   prefixSearch n s = prefixSearch k s"
proof (induction n)
  case 0
  then show ?case by simp
next
  case (Suc n)
  show ?case
  proof (cases "k = Suc n")
    case True
    then show ?thesis by simp
  next
    case False
    then have "k \<le> n" using Suc.prems(1) by simp
    moreover have "tryPrefix (Suc n) s = None" using False Suc.prems by simp
    ultimately show ?thesis using Suc by simp
  qed
qed

lemma prefixSearch_hit:
  "tryPrefix k s = Some r \<Longrightarrow> prefixSearch k s = Some r"
  by (cases k) simp_all

lemma groupTail_no_open:
  "CHR ''('' \<notin> set t \<Longrightarrow> groupTail (drop m t) = None"
proof (cases "drop m t")
  case Nil
  then show ?thesis by simp
next
  case (Cons c r)
  assume "CHR ''('' \<notin> set t"
  moreover have "c \<in> set t" using Cons by (metis in_set_dropD list.set_intros(1))
  ultimately show ?thesis using Cons by auto
qed

lemma level_facts:
  "groupTail (CHR ''('' # levelText lv @ '')'') = Some (levelText lv)"
  "CHR ''('' \<notin> set (levelText lv @ '')'')"
  "parseLevel (toLowerCase (trim (levelText lv))) = Some lv"
  by (cases lv; simp add: isParen_def parseLevel_def toLowerCase_def lowerChar_def isUpperCase_def
        trim_def isBlank_def)+

lemma matchThinking_formatted:
  assumes "\<not> list_ex isLineTerminator b"
  shows "matchThinking (b @ CHR ''('' # levelText lv @ '')'') = Some (b, levelText lv)"
proof -
  let ?s = "b @ CHR ''('' # levelText lv @ '')''"
  have hit: "tryPrefix (length b) ?s = Some (b, levelText lv)"
    using assms by (simp add: tryPrefix_def level_facts(1) del: groupTail.simps)
  have miss: "tryPrefix j ?s = None" if "length b < j" for j
  proof -
    have d: "drop j ?s = drop (j - length b - 1) (levelText lv @ '')'')"
      using that by (simp add: drop_Cons')
    have "groupTail (drop j ?s) = None"
      unfolding d by (rule groupTail_no_open [OF level_facts(2)])
    then show ?thesis by (simp add: tryPrefix_def)
  qed
  have "prefixSearch (length ?s) ?s = prefixSearch (length b) ?s"
    by (rule prefixSearch_skip) (simp_all add: miss)
  then show ?thesis
    by (simp add: matchThinking_def prefixSearch_hit [OF hit])
qed

lemma parse_format:
  assumes "trim base \<noteq> []" and "\<not> list_ex isLineTerminator (trim base)"
  shows "parseModelWithThinking (formatModelWithThinking base (Some lv))
         = \<lparr> baseModel = trim base, thinking = Some lv \<rparr>"
proof -
  let ?b = "trim base"
  let ?s = "?b @ CHR ''('' # levelText lv @ '')''"
  have f: "formatModelWithThinking base (Some lv) = ?s"
    using assms(1) by (simp add: formatModelWithThinking_def normalizeText_JStr)
  have "?s \<noteq> []" by simp
  moreover have "\<not> isBlank (hd ?s)" using assms(1) trim_ends(1) [of base] by simp
  moreover have "\<not> isBlank (last ?s)" by (simp add: isBlank_def)
  ultimately have t: "trim ?s = ?s" by (rule trim_fixed)
  show ?thesis
    unfolding f parseModelWithThinking_def normalizeText_JStr t Let_def
      matchThinking_formatted [OF assms(2)]
    using assms(1) by (simp add: level_facts(3) trim_idem)
qed


text \<open>
  C9 (amended). \<open>gpt-5(high)\<close> parses to the base model \<open>gpt-5\<close> with the level \<open>high\<close>, and
  formatting \<open>gpt-5\<close> with \<open>high\<close> gives \<open>gpt-5(high)\<close>. For every base model name that is not
  empty after trimming and holds no line terminator, and every level, formatting writes the
  trimmed name, an opening parenthesis, the level and a closing parenthesis, and parsing that
  string gives the trimmed name and the level back.
\<close>

theorem thinking_round_trip:
  "parseModelWithThinking ''gpt-5(high)'' = \<lparr> baseModel = ''gpt-5'', thinking = Some High \<rparr>
   \<and> formatModelWithThinking ''gpt-5'' (Some High) = ''gpt-5(high)''
   \<and> (trim base \<noteq> [] \<and> \<not> list_ex isLineTerminator (trim base) \<longrightarrow>
        formatModelWithThinking base (Some lv) = trim base @ ''('' @ levelText lv @ '')''
        \<and> parseModelWithThinking (formatModelWithThinking base (Some lv))
            = \<lparr> baseModel = trim base, thinking = Some lv \<rparr>)"
proof (intro conjI impI)
  show "parseModelWithThinking ''gpt-5(high)'' = \<lparr> baseModel = ''gpt-5'', thinking = Some High \<rparr>"
    by code_simp
  show "formatModelWithThinking ''gpt-5'' (Some High) = ''gpt-5(high)''"
    by code_simp
next
  assume h: "trim base \<noteq> [] \<and> \<not> list_ex isLineTerminator (trim base)"
  then show "formatModelWithThinking base (Some lv) = trim base @ ''('' @ levelText lv @ '')''"
    by (simp add: formatModelWithThinking_def normalizeText_JStr)
  from h show "parseModelWithThinking (formatModelWithThinking base (Some lv))
            = \<lparr> baseModel = trim base, thinking = Some lv \<rparr>"
    by (simp add: parse_format)
qed

theorem thinking_round_trip_witness:
  "trim '' claude-opus-4 '' \<noteq> [] \<and> \<not> list_ex isLineTerminator (trim '' claude-opus-4 '')
   \<and> parseModelWithThinking (formatModelWithThinking '' claude-opus-4 '' (Some XHigh))
       = \<lparr> baseModel = ''claude-opus-4'', thinking = Some XHigh \<rparr>"
proof -
  have t: "trim '' claude-opus-4 '' = ''claude-opus-4''" by code_simp
  have n: "\<not> list_ex isLineTerminator ''claude-opus-4''" by code_simp
  have h: "trim '' claude-opus-4 '' \<noteq> [] \<and> \<not> list_ex isLineTerminator (trim '' claude-opus-4 '')"
    unfolding t using n by simp
  note r = thinking_round_trip [of "'' claude-opus-4 ''" XHigh,
             THEN conjunct2, THEN conjunct2, THEN mp, OF h, THEN conjunct2]
  have p: "parseModelWithThinking (formatModelWithThinking '' claude-opus-4 '' (Some XHigh))
       = \<lparr> baseModel = ''claude-opus-4'', thinking = Some XHigh \<rparr>"
    using r unfolding t .
  show ?thesis
    using h p by (intro conjI) (rule conjunct1, assumption, rule conjunct2, assumption, assumption)
qed

text \<open>
  The claim as stated fails on a trimmed, non-empty name with a line feed inside: the dot of
  the expression matches no line terminator, so the formatted string does not match, and the
  whole string comes back as the base model, with no level.
\<close>

theorem thinking_round_trip_counterexample:
  "trim [CHR ''a'', CHR 0x0A, CHR ''b''] = [CHR ''a'', CHR 0x0A, CHR ''b'']
   \<and> parseModelWithThinking (formatModelWithThinking [CHR ''a'', CHR 0x0A, CHR ''b''] (Some High))
       = \<lparr> baseModel = [CHR ''a'', CHR 0x0A, CHR ''b''] @ ''(high)'', thinking = None \<rparr>"
  by code_simp

section \<open>The fallback of the model resolution\<close>

text \<open>
  The provider key of an entry built from the credential files is already normalized, and the
  entry has at least one file: a group is only opened for a non-empty key together with a
  non-empty file name.
\<close>

lemma of_char_lower: "isUpperCase c \<Longrightarrow> (of_char (lowerChar c) :: nat) = of_char c + 32"
  by (auto simp: lowerChar_def isUpperCase_def)

lemma isBlank_lowerChar: "isBlank (lowerChar c) = isBlank c"
proof (cases "isUpperCase c")
  case True
  then show ?thesis
    using of_char_lower [OF True] by (auto simp: isBlank_def isUpperCase_def)
next
  case False
  then show ?thesis by (simp add: lowerChar_def)
qed

lemma lowerChar_idem: "lowerChar (lowerChar c) = lowerChar c"
proof (cases "isUpperCase c")
  case True
  then have "\<not> isUpperCase (lowerChar c)"
    using of_char_lower [OF True] by (auto simp: isUpperCase_def)
  then show ?thesis by (simp add: lowerChar_def [of "lowerChar c"])
next
  case False
  then show ?thesis by (simp add: lowerChar_def)
qed

lemma toLowerCase_idem: "toLowerCase (toLowerCase s) = toLowerCase s"
  by (simp add: toLowerCase_def lowerChar_idem)

lemma dropWhile_blank_lower:
  "dropWhile isBlank (toLowerCase s) = toLowerCase (dropWhile isBlank s)"
  by (induction s) (simp_all add: toLowerCase_def isBlank_lowerChar)

lemma trim_toLowerCase: "trim (toLowerCase s) = toLowerCase (trim s)"
proof -
  have r: "rev (toLowerCase x) = toLowerCase (rev x)" for x
    by (simp add: toLowerCase_def rev_map)
  show ?thesis
    by (simp add: trim_def dropWhile_blank_lower r)
qed

lemma trim_normalizeText: "trim (normalizeText v) = normalizeText v"
  by (simp add: normalizeText_def trim_idem)

lemma normalizeProviderKey_idem:
  "normalizeProviderKey (JStr (normalizeProviderKey v)) = normalizeProviderKey v"
proof -
  have "normalizeProviderKey (JStr (normalizeProviderKey v))
        = toLowerCase (trim (toLowerCase (normalizeText v)))"
    by (simp add: normalizeProviderKey_def normalizeText_JStr)
  also have "\<dots> = toLowerCase (normalizeText v)"
    by (simp only: trim_toLowerCase trim_normalizeText toLowerCase_idem)
  finally show ?thesis by (simp add: normalizeProviderKey_def)
qed

lemma built_entry:
  assumes "entry \<in> set (buildAuthProviderEntries fs am em b ko)"
  shows "entryKey entry = providerKey entry" and "providerKey entry \<noteq> []"
    and "entryFiles entry \<noteq> []" and "sourceKind entry = AuthProxy"
proof -
  from assms obtain row where row: "row \<in> set (authGroupLoop [] 0 fs)"
    and e: "entry = authEntry am em b ko row"
    unfolding buildAuthProviderEntries_rows by auto
  have pk: "providerKey entry = fst row" and af: "entryFiles entry = files (snd row)"
    and "sourceKind entry = AuthProxy"
    by (simp_all add: e authEntry_def entryFiles_def orEmpty_def)
  then show "sourceKind entry = AuthProxy" by simp
  have "fst row \<in> set (map fst (authGroupLoop [] 0 fs))" using row by simp
  then have "fst row \<in> set (firstOcc (\<lambda>k. k) (map providerKeyOf (filter contributes fs)))"
    by (simp only: authGroupLoop_keys0)
  then have "fst row \<in> set (map providerKeyOf (filter contributes fs))"
    by (rule subsetD [OF set_firstOcc])
  then obtain f where f: "f \<in> set fs" "contributes f" "providerKeyOf f = fst row"
    by auto
  have ne: "providerKeyOf f \<noteq> []" using f(2) by (simp add: contributes_def)
  then show "providerKey entry \<noteq> []" by (simp add: pk f(3) [symmetric])
  have "entryKey entry = normalizeProviderKey (JStr (providerKeyOf f))"
    by (simp add: entryKey_def pk f(3))
  also have "\<dots> = providerKeyOf f"
    unfolding providerKeyOf_def by (rule normalizeProviderKey_idem)
  finally show "entryKey entry = providerKey entry" by (simp add: pk f(3))
  have "fileNameOf f \<in> set (map fileNameOf
          (filter (\<lambda>g. contributes g \<and> providerKeyOf g = fst row) fs))"
    using f by simp
  moreover have "set (firstOcc (\<lambda>x. x) xs) = set xs" for xs :: "string list"
    by (induction xs) auto
  ultimately have "fileNameOf f \<in> set (files (snd row))"
    unfolding authGroupLoop_row_files [OF row] by simp
  then show "entryFiles entry \<noteq> []" unfolding af by auto
qed

lemma settledLoop_eq:
  "settledLoop collected h rs
   = (collected @ concat (map normalizeAuthApiModels (fulfilled rs)), h \<or> \<not> list_all isl rs)"
  by (induction collected h rs rule: settledLoop.induct) simp_all

lemma hasAuthFiles_entryFiles: "hasAuthFiles entry = (entryFiles entry \<noteq> [])"
  by (simp add: hasAuthFiles_def entryFiles_def orEmpty_def split: option.splits)

lemma fetch_unfold:
  "fetchAuthProxyModels gd gf entry =
     (if entryKey entry = [] then ([], Inr [])
      else case gd (entryKey entry) of
        Inr defs \<Rightarrow>
          if normalizeAuthApiModels defs = [] \<and> entryFiles entry \<noteq> []
          then (GetModelDefinitions (entryKey entry) # map GetModelsForAuthFile (entryFiles entry),
                Inr (finishModels entry (dedupeModels
                 (concat (map normalizeAuthApiModels (fulfilled (map gf (entryFiles entry))))))))
          else ([GetModelDefinitions (entryKey entry)],
                Inr (finishModels entry (normalizeAuthApiModels defs)))
      | Inl e \<Rightarrow>
          if entryFiles entry \<noteq> []
          then (GetModelDefinitions (entryKey entry) # map GetModelsForAuthFile (entryFiles entry),
                if list_all (\<lambda>n. isl (gf n)) (entryFiles entry) \<and> thrownTruthy e then Inl e
                else Inr (finishModels entry (dedupeModels
                 (concat (map normalizeAuthApiModels (fulfilled (map gf (entryFiles entry))))))))
          else ([GetModelDefinitions (entryKey entry)], Inr (finishModels entry [])))"
  by (simp add: fetchAuthProxyModels_def Let_def entryKey_def [symmetric] entryFiles_def [symmetric]
        hasAuthFiles_entryFiles settledLoop_eq list_all_iff split: sum.splits)


lemma fulfilled_all_failed: "list_all isl rs \<Longrightarrow> fulfilled rs = []"
  by (induction rs rule: fulfilled.induct) simp_all

lemma finishModels_Nil: "finishModels entry [] = []"
  by (simp add: finishModels_def applyAliasLookup_def dedupeModels_def filterExcludedModels_def
        Let_def split: option.splits)

text \<open>
  C3. For every entry that \<open>buildAuthProviderEntries\<close> builds, the resolution of its
  models asks the model definitions of the provider first (the key and the list of files of
  such an entry are not empty, and \<open>entryFiles\<close> is its field \<open>authFileNames\<close>). When that
  call succeeds with at least one model this is the only call and these are the models. When
  it fails or gives no model, the calls are the
  definitions call followed by one call for each credential file, in the order of the
  files; if at least one of these calls succeeds the result is the models of the calls that
  succeeded, deduplicated, and a failure of the definitions call is swallowed. The resolution
  throws \<open>x\<close> exactly when the definitions call failed with \<open>x\<close> and the call of
  every file failed, where the value a failed definitions call rejects with is truthy (as
  the errors of the API client are); when the definitions call gave no model and every file
  failed, the result is the empty list. Every list that is returned has gone through the
  alias lookup and the exclusion patterns of the entry.
\<close>

theorem fetchAuthProxyModels_fallback:
  assumes built: "entry \<in> set (buildAuthProviderEntries fs am em b ko)"
    and truthy: "\<forall>e. gd (providerKey entry) = Inl e \<longrightarrow> thrownTruthy e"
  shows "sourceKind entry = AuthProxy \<and> providerKey entry \<noteq> [] \<and> entryFiles entry \<noteq> []
    \<and> authFileNames entry = Some (entryFiles entry)
    \<and> (\<exists>rest. fst (fetchAuthProxyModels gd gf entry)
                 = GetModelDefinitions (providerKey entry) # rest)
    \<and> (gd (providerKey entry) = Inr defs \<and> normalizeAuthApiModels defs \<noteq> [] \<longrightarrow>
         fetchAuthProxyModels gd gf entry
         = ([GetModelDefinitions (providerKey entry)],
            Inr (finishModels entry (normalizeAuthApiModels defs))))
    \<and> (\<not> (\<exists>ds. gd (providerKey entry) = Inr ds \<and> normalizeAuthApiModels ds \<noteq> []) \<longrightarrow>
         fst (fetchAuthProxyModels gd gf entry)
         = GetModelDefinitions (providerKey entry)
           # map GetModelsForAuthFile (entryFiles entry))
    \<and> (\<not> (\<exists>ds. gd (providerKey entry) = Inr ds \<and> normalizeAuthApiModels ds \<noteq> [])
         \<and> \<not> list_all (\<lambda>n. isl (gf n)) (entryFiles entry) \<longrightarrow>
         snd (fetchAuthProxyModels gd gf entry)
         = Inr (finishModels entry (dedupeModels
             (concat (map normalizeAuthApiModels (fulfilled (map gf (entryFiles entry))))))))
    \<and> ((snd (fetchAuthProxyModels gd gf entry) = Inl x)
         = (gd (providerKey entry) = Inl x \<and> list_all (\<lambda>n. isl (gf n)) (entryFiles entry)))
    \<and> (gd (providerKey entry) = Inr ds \<and> normalizeAuthApiModels ds = []
         \<and> list_all (\<lambda>n. isl (gf n)) (entryFiles entry) \<longrightarrow>
         snd (fetchAuthProxyModels gd gf entry) = Inr [])"
proof -
  note b = built_entry [OF built]
  have k: "entryKey entry \<noteq> []" using b(1,2) by simp
  note u = fetch_unfold [of gd gf entry, unfolded b(1)]
  have first: "\<exists>rest. fst (fetchAuthProxyModels gd gf entry)
                 = GetModelDefinitions (providerKey entry) # rest"
    using b(2) by (cases "gd (providerKey entry)") (simp_all add: u)
  have direct: "fetchAuthProxyModels gd gf entry
         = ([GetModelDefinitions (providerKey entry)],
            Inr (finishModels entry (normalizeAuthApiModels defs)))"
    if "gd (providerKey entry) = Inr defs \<and> normalizeAuthApiModels defs \<noteq> []"
    using that b(2) by (simp add: u)
  have calls: "fst (fetchAuthProxyModels gd gf entry)
         = GetModelDefinitions (providerKey entry)
           # map GetModelsForAuthFile (entryFiles entry)"
    if h: "\<not> (\<exists>ds. gd (providerKey entry) = Inr ds \<and> normalizeAuthApiModels ds \<noteq> [])"
  proof (cases "gd (providerKey entry)")
    case (Inl e)
    then show ?thesis using b(2,3) by (simp add: u)
  next
    case (Inr ds)
    then have "normalizeAuthApiModels ds = []" using h by blast
    then show ?thesis using Inr b(2,3) by (simp add: u)
  qed
  have partial: "snd (fetchAuthProxyModels gd gf entry)
         = Inr (finishModels entry (dedupeModels
             (concat (map normalizeAuthApiModels (fulfilled (map gf (entryFiles entry)))))))"
    if h: "\<not> (\<exists>ds. gd (providerKey entry) = Inr ds \<and> normalizeAuthApiModels ds \<noteq> [])
         \<and> \<not> list_all (\<lambda>n. isl (gf n)) (entryFiles entry)"
  proof (cases "gd (providerKey entry)")
    case (Inl e)
    then show ?thesis using h b(2,3) by (simp add: u)
  next
    case (Inr ds)
    then have "normalizeAuthApiModels ds = []" using h by blast
    then show ?thesis using Inr b(2,3) by (simp add: u)
  qed
  have throws: "(snd (fetchAuthProxyModels gd gf entry) = Inl x)
         = (gd (providerKey entry) = Inl x \<and> list_all (\<lambda>n. isl (gf n)) (entryFiles entry))"
  proof (cases "gd (providerKey entry)")
    case (Inl e)
    then have "thrownTruthy e" using truthy by simp
    then show ?thesis using Inl b(2,3) by (auto simp: u)
  next
    case (Inr ds)
    then show ?thesis using b(2,3) by (simp add: u)
  qed
  have none: "snd (fetchAuthProxyModels gd gf entry) = Inr []"
    if "gd (providerKey entry) = Inr ds \<and> normalizeAuthApiModels ds = []
         \<and> list_all (\<lambda>n. isl (gf n)) (entryFiles entry)"
  proof -
    have "list_all isl (map gf (entryFiles entry))" using that by (simp add: list_all_iff)
    then have "fulfilled (map gf (entryFiles entry)) = []"
      by (rule fulfilled_all_failed)
    then show ?thesis using that b(2,3)
      by (simp add: u finishModels_Nil dedupeModels_def)
  qed
  have names: "authFileNames entry = Some (entryFiles entry)"
    using b(3) by (simp add: entryFiles_def orEmpty_def split: option.splits)
  show ?thesis
    using b(2,3,4) names first direct calls partial throws none by blast
qed



theorem fetchAuthProxyModels_fallback_witness:
  "\<lparr> entry_id = ''auth:codex'', sourceKind = AuthProxy, providerKey = ''codex'',
         entry_name = ''Codex'', baseUrl = [], keyOptions = [], entry_order = 0,
         configuredModels = None, authFileNames = Some [''a.json'', ''b.json''],
         aliasLookup = Some [], excludedPatterns = Some [], realBaseUrl = None,
         realKeyOptions = None \<rparr>
     \<in> set (buildAuthProviderEntries
          [\<lparr> file_name = ''a.json'', provider = Some ''Codex'', file_type = None,
             disabled = JBool False, unavailable = JUndefined \<rparr>,
           \<lparr> file_name = ''b.json'', provider = None, file_type = Some ''codex'',
             disabled = JUndefined, unavailable = JNum NumZero \<rparr>] (\<lambda>k. None) (\<lambda>k. None) [] [])
   \<and> fetchAuthProxyModels (\<lambda>k. Inl (ErrorObj ''definitions failed''))
       (\<lambda>n. if n = ''b.json'' then Inr [\<lparr> am_id = ''gpt-5'', am_display_name = None \<rparr>]
            else Inl (ErrorObj ''no models''))
       \<lparr> entry_id = ''auth:codex'', sourceKind = AuthProxy, providerKey = ''codex'',
         entry_name = ''Codex'', baseUrl = [], keyOptions = [], entry_order = 0,
         configuredModels = None, authFileNames = Some [''a.json'', ''b.json''],
         aliasLookup = Some [], excludedPatterns = Some [], realBaseUrl = None,
         realKeyOptions = None \<rparr>
     = ([GetModelDefinitions ''codex'', GetModelsForAuthFile ''a.json'', GetModelsForAuthFile ''b.json''],
        Inr [\<lparr> name = ''gpt-5'', alias = None, description = None \<rparr>])
   \<and> fetchAuthProxyModels (\<lambda>k. Inl (ErrorObj ''definitions failed''))
       (\<lambda>n. Inl (ErrorObj ''no models''))
       \<lparr> entry_id = ''auth:codex'', sourceKind = AuthProxy, providerKey = ''codex'',
         entry_name = ''Codex'', baseUrl = [], keyOptions = [], entry_order = 0,
         configuredModels = None, authFileNames = Some [''a.json'', ''b.json''],
         aliasLookup = Some [], excludedPatterns = Some [], realBaseUrl = None,
         realKeyOptions = None \<rparr>
     = ([GetModelDefinitions ''codex'', GetModelsForAuthFile ''a.json'', GetModelsForAuthFile ''b.json''],
        Inl (ErrorObj ''definitions failed''))"
proof -
  let ?gd = "\<lambda>k :: string. (Inl (ErrorObj ''definitions failed'') :: thrown + AuthApiModel list)"
  let ?gf = "\<lambda>n. if n = ''b.json'' then Inr [\<lparr> am_id = ''gpt-5'', am_display_name = None \<rparr>]
            else (Inl (ErrorObj ''no models'') :: thrown + AuthApiModel list)"
  let ?gn = "\<lambda>n :: string. (Inl (ErrorObj ''no models'') :: thrown + AuthApiModel list)"
  let ?e = "\<lparr> entry_id = ''auth:codex'', sourceKind = AuthProxy, providerKey = ''codex'',
         entry_name = ''Codex'', baseUrl = [], keyOptions = [], entry_order = 0,
         configuredModels = None, authFileNames = Some [''a.json'', ''b.json''],
         aliasLookup = Some [], excludedPatterns = Some [], realBaseUrl = None,
         realKeyOptions = None \<rparr>"
  let ?fs = "[\<lparr> file_name = ''a.json'', provider = Some ''Codex'', file_type = None,
             disabled = JBool False, unavailable = JUndefined \<rparr>,
           \<lparr> file_name = ''b.json'', provider = None, file_type = Some ''codex'',
             disabled = JUndefined, unavailable = JNum NumZero \<rparr>]"
  let ?x = "ErrorObj ''definitions failed''"
  have b: "buildAuthProviderEntries ?fs (\<lambda>k. None) (\<lambda>k. None) [] [] = [?e]"
    by code_simp
  have 0: "?e \<in> set (buildAuthProviderEntries ?fs (\<lambda>k. None) (\<lambda>k. None) [] [])"
    unfolding b by simp
  have t: "\<forall>e. ?gd (providerKey ?e) = Inl e \<longrightarrow> thrownTruthy e"
    by simp
  have k: "providerKey ?e = ''codex''" by simp
  have f: "entryFiles ?e = [''a.json'', ''b.json'']" by code_simp
  have m: "finishModels ?e (dedupeModels
             (concat (map normalizeAuthApiModels (fulfilled (map ?gf [''a.json'', ''b.json''])))))
           = [\<lparr> name = ''gpt-5'', alias = None, description = None \<rparr>]"
    by code_simp
  have nd: "\<not> (\<exists>ds. ?gd (providerKey ?e) = Inr ds \<and> normalizeAuthApiModels ds \<noteq> [])"
    by simp
  have some: "\<not> list_all (\<lambda>n. isl (?gf n)) (entryFiles ?e)"
    unfolding f by simp
  have all: "list_all (\<lambda>n. isl (?gn n)) (entryFiles ?e)"
    unfolding f by simp
  note A = fetchAuthProxyModels_fallback [where gd = ?gd and gf = ?gf and x = ?x, OF 0 t]
  note B = fetchAuthProxyModels_fallback [where gd = ?gd and gf = ?gn and x = ?x, OF 0 t]
  note A5 = A [THEN conjunct2, THEN conjunct2, THEN conjunct2, THEN conjunct2, THEN conjunct2,
               THEN conjunct2]
  note B5 = B [THEN conjunct2, THEN conjunct2, THEN conjunct2, THEN conjunct2, THEN conjunct2,
               THEN conjunct2]
  have a1: "fst (fetchAuthProxyModels ?gd ?gf ?e)
            = [GetModelDefinitions ''codex'', GetModelsForAuthFile ''a.json'', GetModelsForAuthFile ''b.json'']"
    using A5 [THEN conjunct1, THEN mp, OF nd] unfolding f k by simp
  have a2: "snd (fetchAuthProxyModels ?gd ?gf ?e)
            = Inr [\<lparr> name = ''gpt-5'', alias = None, description = None \<rparr>]"
    using A5 [THEN conjunct2, THEN conjunct1, THEN mp, OF conjI [OF nd some]] unfolding f m .
  have b1: "fst (fetchAuthProxyModels ?gd ?gn ?e)
            = [GetModelDefinitions ''codex'', GetModelsForAuthFile ''a.json'', GetModelsForAuthFile ''b.json'']"
    using B5 [THEN conjunct1, THEN mp, OF nd] unfolding f k by simp
  have b2: "snd (fetchAuthProxyModels ?gd ?gn ?e) = Inl ?x"
    using B5 [THEN conjunct2, THEN conjunct2, THEN conjunct1] all by simp
  show ?thesis
    by (intro conjI 0 prod_eqI) (simp_all only: a1 a2 b1 b2 fst_conv snd_conv)
qed

section \<open>Loading states and the token of a refresh\<close>

lemma markLoadingLoop_apply:
  "markLoadingLoop prev next es i
   = (if i \<in> entry_id ` set es then Some (loadingState prev i) else next i)"
  by (induction es arbitrary: "next") auto

lemma refreshBegin_models:
  "modelsByProvider (refreshBegin entry s) i
   = (if i = entry_id entry then Some (loadingState (modelsByProvider s) i)
      else modelsByProvider s i)"
  by (simp add: refreshBegin_def)

lemma refreshBegin_token:
  "providerFetchToken (refreshBegin entry s) i
   = (if i = entry_id entry then Some (nextTokenOf s i) else providerFetchToken s i)"
  by (simp add: refreshBegin_def)

lemma refreshSettle_token:
  "providerFetchToken (refreshSettle fallback entry tok outcome s) = providerFetchToken s"
  by (simp add: refreshSettle_def split: sum.splits)

lemma refreshSettle_models:
  "modelsByProvider (refreshSettle fallback entry tok outcome s) i
   = (if i = entry_id entry \<and> providerFetchToken s (entry_id entry) = Some tok
      then Some (case outcome of
                   Inr ms \<Rightarrow> \<lparr> status = Success, models = ms, error = None \<rparr>
                 | Inl e \<Rightarrow> \<lparr> status = Error, models = prevModels (modelsByProvider s) i,
                              error = Some (errorMessage fallback e) \<rparr>)
      else modelsByProvider s i)"
  by (simp add: refreshSettle_def split: sum.splits)

lemma refreshAllBegin_models:
  "modelsByProvider (refreshAllBegin entries s) i
   = (if i \<in> entry_id ` set entries then Some (loadingState (modelsByProvider s) i) else None)"
  by (simp add: refreshAllBegin_def markLoadingLoop_apply)

lemma refreshAllBegin_token:
  "providerFetchToken (refreshAllBegin entries s) = providerFetchToken s"
  by (simp add: refreshAllBegin_def)

lemma loading_step:
  assumes "orchestratorStep fallback s s'" and "modelsByProvider s' i = Some st'"
    and "status st' = Loading"
  shows "models st' = (case modelsByProvider s i of None \<Rightarrow> [] | Some st \<Rightarrow> models st)"
  using assms
proof (cases rule: orchestratorStep.cases)
  case (stepBegin entry)
  then show ?thesis using assms(2)
    by (auto simp: refreshBegin_models loadingState_def prevModels_def split: if_splits)
next
  case (stepSettle entry tok outcome)
  then show ?thesis using assms(2,3)
    by (auto simp: refreshSettle_models prevModels_def split: if_splits sum.splits)
next
  case (stepAll entries)
  then show ?thesis using assms(2)
    by (auto simp: refreshAllBegin_models loadingState_def prevModels_def split: if_splits)
next
  case stepReset
  then show ?thesis using assms(2) by simp
qed

text \<open>
  C7. After any move of the orchestrator, a provider whose state is \<open>loading\<close> has the list
  of models that its state held before the move, unchanged, and the empty list only if it
  had no state before: no move into \<open>loading\<close> clears the models. The two moves that write
  \<open>loading\<close> are the begin of \<open>refreshSingleProviderModels\<close>, for its entry, and the first
  phase of \<open>refreshAllProviderModels\<close>, for each of its entries; each writes the state
  \<open>loading\<close> with the models of the earlier state of that id.
\<close>

theorem loading_keeps_models:
  "(orchestratorStep fallback s s' \<and> modelsByProvider s' i = Some st' \<and> status st' = Loading
      \<and> modelsByProvider s i = Some st \<longrightarrow> models st' = models st)
   \<and> (orchestratorStep fallback s s' \<and> modelsByProvider s' i = Some st' \<and> status st' = Loading
      \<and> modelsByProvider s i = None \<longrightarrow> models st' = [])
   \<and> (modelsByProvider s (entry_id entry) = Some st \<longrightarrow>
        modelsByProvider (refreshBegin entry s) (entry_id entry)
        = Some \<lparr> status = Loading, models = models st, error = None \<rparr>)
   \<and> (modelsByProvider s (entry_id entry) = None \<longrightarrow>
        modelsByProvider (refreshBegin entry s) (entry_id entry)
        = Some \<lparr> status = Loading, models = [], error = None \<rparr>)
   \<and> (entry \<in> set entries \<and> modelsByProvider s (entry_id entry) = Some st \<longrightarrow>
        modelsByProvider (refreshAllBegin entries s) (entry_id entry)
        = Some \<lparr> status = Loading, models = models st, error = None \<rparr>)
   \<and> (entry \<in> set entries \<and> modelsByProvider s (entry_id entry) = None \<longrightarrow>
        modelsByProvider (refreshAllBegin entries s) (entry_id entry)
        = Some \<lparr> status = Loading, models = [], error = None \<rparr>)"
proof (intro conjI impI)
  assume "orchestratorStep fallback s s' \<and> modelsByProvider s' i = Some st' \<and> status st' = Loading
      \<and> modelsByProvider s i = Some st"
  then show "models st' = models st"
    using loading_step [of fallback s s' i st'] by simp
next
  assume "orchestratorStep fallback s s' \<and> modelsByProvider s' i = Some st' \<and> status st' = Loading
      \<and> modelsByProvider s i = None"
  then show "models st' = []"
    using loading_step [of fallback s s' i st'] by simp
next
  assume "modelsByProvider s (entry_id entry) = Some st"
  then show "modelsByProvider (refreshBegin entry s) (entry_id entry)
        = Some \<lparr> status = Loading, models = models st, error = None \<rparr>"
    by (simp add: refreshBegin_models loadingState_def prevModels_def)
next
  assume "modelsByProvider s (entry_id entry) = None"
  then show "modelsByProvider (refreshBegin entry s) (entry_id entry)
        = Some \<lparr> status = Loading, models = [], error = None \<rparr>"
    by (simp add: refreshBegin_models loadingState_def prevModels_def)
next
  assume "entry \<in> set entries \<and> modelsByProvider s (entry_id entry) = Some st"
  then show "modelsByProvider (refreshAllBegin entries s) (entry_id entry)
        = Some \<lparr> status = Loading, models = models st, error = None \<rparr>"
    by (simp add: refreshAllBegin_models loadingState_def prevModels_def)
next
  assume "entry \<in> set entries \<and> modelsByProvider s (entry_id entry) = None"
  then show "modelsByProvider (refreshAllBegin entries s) (entry_id entry)
        = Some \<lparr> status = Loading, models = [], error = None \<rparr>"
    by (simp add: refreshAllBegin_models loadingState_def prevModels_def)
qed

theorem loading_keeps_models_witness:
  "orchestratorStep ''failed''
     \<lparr> providerFetchToken = Map.empty,
       modelsByProvider = [''auth:codex'' \<mapsto>
         \<lparr> status = Error, models = [\<lparr> name = ''gpt-5'', alias = None, description = None \<rparr>],
           error = Some ''boom'' \<rparr>] \<rparr>
     (refreshBegin
        \<lparr> entry_id = ''auth:codex'', sourceKind = AuthProxy, providerKey = ''codex'',
          entry_name = ''Codex'', baseUrl = [], keyOptions = [], entry_order = 0,
          configuredModels = None, authFileNames = Some [''a.json''],
          aliasLookup = Some [], excludedPatterns = Some [], realBaseUrl = None,
          realKeyOptions = None \<rparr>
        \<lparr> providerFetchToken = Map.empty,
          modelsByProvider = [''auth:codex'' \<mapsto>
            \<lparr> status = Error, models = [\<lparr> name = ''gpt-5'', alias = None, description = None \<rparr>],
              error = Some ''boom'' \<rparr>] \<rparr>)
   \<and> modelsByProvider
       (refreshBegin
        \<lparr> entry_id = ''auth:codex'', sourceKind = AuthProxy, providerKey = ''codex'',
          entry_name = ''Codex'', baseUrl = [], keyOptions = [], entry_order = 0,
          configuredModels = None, authFileNames = Some [''a.json''],
          aliasLookup = Some [], excludedPatterns = Some [], realBaseUrl = None,
          realKeyOptions = None \<rparr>
        \<lparr> providerFetchToken = Map.empty,
          modelsByProvider = [''auth:codex'' \<mapsto>
            \<lparr> status = Error, models = [\<lparr> name = ''gpt-5'', alias = None, description = None \<rparr>],
              error = Some ''boom'' \<rparr>] \<rparr>) ''auth:codex''
     = Some \<lparr> status = Loading, models = [\<lparr> name = ''gpt-5'', alias = None, description = None \<rparr>],
              error = None \<rparr>
   \<and> modelsByProvider
       (refreshAllBegin
        [\<lparr> entry_id = ''auth:codex'', sourceKind = AuthProxy, providerKey = ''codex'',
           entry_name = ''Codex'', baseUrl = [], keyOptions = [], entry_order = 0,
           configuredModels = None, authFileNames = Some [''a.json''],
           aliasLookup = Some [], excludedPatterns = Some [], realBaseUrl = None,
           realKeyOptions = None \<rparr>]
        \<lparr> providerFetchToken = Map.empty,
          modelsByProvider = [''auth:codex'' \<mapsto>
            \<lparr> status = Error, models = [\<lparr> name = ''gpt-5'', alias = None, description = None \<rparr>],
              error = Some ''boom'' \<rparr>] \<rparr>) ''auth:codex''
     = Some \<lparr> status = Loading, models = [\<lparr> name = ''gpt-5'', alias = None, description = None \<rparr>],
              error = None \<rparr>
   \<and> models \<lparr> status = Loading, models = [\<lparr> name = ''gpt-5'', alias = None, description = None \<rparr>],
              error = None \<rparr>
     = models \<lparr> status = Error, models = [\<lparr> name = ''gpt-5'', alias = None, description = None \<rparr>],
                error = Some ''boom'' \<rparr>"
proof -
  let ?m = "[\<lparr> name = ''gpt-5'', alias = None, description = None \<rparr>]"
  let ?st = "\<lparr> status = Error, models = ?m, error = Some ''boom'' \<rparr>"
  let ?s = "\<lparr> providerFetchToken = Map.empty, modelsByProvider = [''auth:codex'' \<mapsto> ?st] \<rparr>"
  let ?e = "\<lparr> entry_id = ''auth:codex'', sourceKind = AuthProxy, providerKey = ''codex'',
          entry_name = ''Codex'', baseUrl = [], keyOptions = [], entry_order = 0,
          configuredModels = None, authFileNames = Some [''a.json''],
          aliasLookup = Some [], excludedPatterns = Some [], realBaseUrl = None,
          realKeyOptions = None \<rparr>"
  let ?l = "\<lparr> status = Loading, models = ?m, error = None \<rparr>"
  note t = loading_keeps_models [where fallback = "''failed''" and s = ?s and entry = ?e
             and s' = "refreshBegin ?e ?s" and i = "''auth:codex''" and st = ?st and st' = ?l
             and entries = "[?e]"]
  have st: "orchestratorStep ''failed'' ?s (refreshBegin ?e ?s)" by (rule stepBegin)
  have before: "modelsByProvider ?s (entry_id ?e) = Some ?st" by simp
  have before': "modelsByProvider ?s ''auth:codex'' = Some ?st" by simp
  have mem: "?e \<in> set [?e]" by simp
  have id: "entry_id ?e = ''auth:codex''" by simp
  have "models ?st = ?m" by simp
  note one = t [THEN conjunct2, THEN conjunct2, THEN conjunct1, THEN mp, OF before]
  have m: "modelsByProvider (refreshBegin ?e ?s) ''auth:codex'' = Some ?l"
    using one unfolding id by simp
  note all = t [THEN conjunct2, THEN conjunct2, THEN conjunct2, THEN conjunct2, THEN conjunct1,
                THEN mp, OF conjI [OF mem before]]
  have a: "modelsByProvider (refreshAllBegin [?e] ?s) ''auth:codex'' = Some ?l"
    using all unfolding id by simp
  have l: "status ?l = Loading" by simp
  have k: "models ?l = models ?st"
    by (rule t [THEN conjunct1, THEN mp, OF conjI [OF st conjI [OF m conjI [OF l before']]]])
  show ?thesis using st m a k by (intro conjI)
qed

lemma stale_discarded:
  "providerFetchToken s (entry_id entry) \<noteq> Some tok \<Longrightarrow>
   refreshSettle fallback entry tok outcome s = s"
  by (simp add: refreshSettle_def)

lemma nextTokenOf_refreshBegin:
  "nextTokenOf (refreshBegin entry s) (entry_id entry) = nextTokenOf s (entry_id entry) + 1"
  by (simp add: nextTokenOf_def refreshBegin_def)

lemma token_step:
  assumes "orchestratorStep fallback s s'"
  shows "nextTokenOf s i \<le> nextTokenOf s' i"
  using assms
proof (cases rule: orchestratorStep.cases)
  case (stepBegin entry)
  then show ?thesis by (simp add: nextTokenOf_def refreshBegin_def)
next
  case (stepSettle entry tok outcome)
  then show ?thesis by (simp add: nextTokenOf_def refreshSettle_token)
next
  case (stepAll entries)
  then show ?thesis by (simp add: nextTokenOf_def refreshAllBegin_token)
next
  case stepReset
  then show ?thesis by (simp add: nextTokenOf_def)
qed

lemma token_steps:
  "(orchestratorStep fallback)\<^sup>*\<^sup>* s s' \<Longrightarrow> nextTokenOf s i \<le> nextTokenOf s' i"
proof (induction rule: rtranclp_induct)
  case base
  then show ?case by simp
next
  case (step y z)
  then show ?case using token_step [of fallback y z i] by simp
qed

lemma token_known_step:
  assumes "orchestratorStep fallback s s'" and "providerFetchToken s i \<noteq> None"
  shows "providerFetchToken s' i \<noteq> None"
  using assms
proof (cases rule: orchestratorStep.cases)
  case (stepBegin entry)
  then show ?thesis using assms(2) by (simp add: refreshBegin_def)
next
  case (stepSettle entry tok outcome)
  then show ?thesis using assms(2) by (simp add: refreshSettle_token)
next
  case (stepAll entries)
  then show ?thesis using assms(2) by (simp add: refreshAllBegin_token)
next
  case stepReset
  then show ?thesis using assms(2) by simp
qed

lemma token_known_steps:
  "(orchestratorStep fallback)\<^sup>*\<^sup>* s s' \<Longrightarrow> providerFetchToken s i \<noteq> None \<Longrightarrow>
   providerFetchToken s' i \<noteq> None"
  by (induction rule: rtranclp_induct) (auto dest: token_known_step)

lemma superseded:
  assumes a: "(orchestratorStep fallback)\<^sup>*\<^sup>* (refreshBegin entryA s0) s1"
    and b: "(orchestratorStep fallback)\<^sup>*\<^sup>* (refreshBegin entryB s1) s"
    and i: "entry_id entryB = entry_id entryA"
  shows "refreshSettle fallback entryA (nextTokenOf s0 (entry_id entryA)) outcome s = s"
proof -
  let ?i = "entry_id entryA"
  have "nextTokenOf s0 ?i + 1 = nextTokenOf (refreshBegin entryA s0) ?i"
    by (simp add: nextTokenOf_refreshBegin)
  also have "\<dots> \<le> nextTokenOf s1 ?i" using a by (rule token_steps)
  also have "\<dots> < nextTokenOf (refreshBegin entryB s1) ?i"
    using nextTokenOf_refreshBegin [of entryB s1] i by simp
  also have "\<dots> \<le> nextTokenOf s ?i" using b by (rule token_steps)
  finally have lt: "nextTokenOf s0 ?i + 1 < nextTokenOf s ?i" .
  have "providerFetchToken (refreshBegin entryB s1) ?i \<noteq> None"
    using i by (simp add: refreshBegin_def)
  then have "providerFetchToken s ?i \<noteq> None" using b token_known_steps by blast
  then obtain t where t: "providerFetchToken s ?i = Some t" by blast
  then have "nextTokenOf s ?i = t + 1" by (simp add: nextTokenOf_def)
  then have "t \<noteq> nextTokenOf s0 ?i" using lt by simp
  then show ?thesis using t by (simp add: stale_discarded)
qed


lemma prevModels_refreshBegin:
  "prevModels (modelsByProvider (refreshBegin entry s)) i = prevModels (modelsByProvider s) i"
  by (simp add: refreshBegin_models prevModels_def loadingState_def)

text \<open>
  C1. Two invocations of \<open>refreshSingleProviderModels\<close> for the same provider id, A begun
  before B. Once B has begun, the resolution of A changes nothing, whether it arrives before
  or after the resolution of B; after both resolutions, in either order, the state of the
  provider is the result of B alone: \<open>success\<close> with the models of B, or \<open>error\<close> with the
  message of B and the models known before A began. The resolution of A also changes nothing
  after any further moves of the orchestrator that follow the begin of B, and between the
  begin of A and the begin of B any moves may take place. For entries of kind
  \<open>configured-api\<close>, which resolve without waiting, the second of two invocations decides.
\<close>

theorem later_refresh_wins:
  assumes same: "entry_id entryB = entry_id entryA"
  shows "refreshSettle fallback entryA (nextTokenOf s0 (entry_id entryA)) rA
           (refreshBegin entryB (refreshBegin entryA s0))
         = refreshBegin entryB (refreshBegin entryA s0)
       \<and> refreshSettle fallback entryA (nextTokenOf s0 (entry_id entryA)) rA
           (refreshSettle fallback entryB (nextTokenOf (refreshBegin entryA s0) (entry_id entryA)) rB
              (refreshBegin entryB (refreshBegin entryA s0)))
         = refreshSettle fallback entryB (nextTokenOf (refreshBegin entryA s0) (entry_id entryA)) rB
              (refreshBegin entryB (refreshBegin entryA s0))
       \<and> refreshSettle fallback entryB (nextTokenOf (refreshBegin entryA s0) (entry_id entryA)) rB
           (refreshSettle fallback entryA (nextTokenOf s0 (entry_id entryA)) rA
              (refreshBegin entryB (refreshBegin entryA s0)))
         = refreshSettle fallback entryB (nextTokenOf (refreshBegin entryA s0) (entry_id entryA)) rB
              (refreshBegin entryB (refreshBegin entryA s0))
       \<and> modelsByProvider
           (refreshSettle fallback entryB (nextTokenOf (refreshBegin entryA s0) (entry_id entryA)) rB
              (refreshBegin entryB (refreshBegin entryA s0))) (entry_id entryA)
         = Some (case rB of
                   Inr ms \<Rightarrow> \<lparr> status = Success, models = ms, error = None \<rparr>
                 | Inl e \<Rightarrow> \<lparr> status = Error,
                              models = prevModels (modelsByProvider s0) (entry_id entryA),
                              error = Some (errorMessage fallback e) \<rparr>)
       \<and> ((orchestratorStep fallback)\<^sup>*\<^sup>* (refreshBegin entryA s0) s1
            \<and> (orchestratorStep fallback)\<^sup>*\<^sup>* (refreshBegin entryB s1) s
          \<longrightarrow> refreshSettle fallback entryA (nextTokenOf s0 (entry_id entryA)) rA s = s)
       \<and> modelsByProvider (refreshConfigured fallback entryB (refreshConfigured fallback entryA s0))
           (entry_id entryA)
         = Some \<lparr> status = Success,
                  models = dedupeModels (orEmpty (configuredModels entryB)),
                  error = None \<rparr>"
proof (intro conjI impI)
  let ?i = "entry_id entryA"
  let ?tA = "nextTokenOf s0 ?i"
  let ?s1 = "refreshBegin entryA s0"
  let ?tB = "nextTokenOf ?s1 ?i"
  let ?s2 = "refreshBegin entryB ?s1"
  let ?sB = "refreshSettle fallback entryB ?tB rB ?s2"
  show stale: "refreshSettle fallback entryA ?tA rA ?s2 = ?s2"
    by (rule superseded [OF rtranclp.rtrancl_refl rtranclp.rtrancl_refl same])
  have "orchestratorStep fallback ?s2 ?sB" by (rule stepSettle)
  then have "(orchestratorStep fallback)\<^sup>*\<^sup>* ?s2 ?sB" by (rule r_into_rtranclp)
  then show "refreshSettle fallback entryA ?tA rA ?sB = ?sB"
    by (rule superseded [OF rtranclp.rtrancl_refl _ same])
  show "refreshSettle fallback entryB ?tB rB (refreshSettle fallback entryA ?tA rA ?s2) = ?sB"
    by (simp only: stale)
  have tok: "providerFetchToken ?s2 (entry_id entryB) = Some ?tB"
    by (simp add: refreshBegin_token same)
  show "modelsByProvider ?sB ?i
         = Some (case rB of
                   Inr ms \<Rightarrow> \<lparr> status = Success, models = ms, error = None \<rparr>
                 | Inl e \<Rightarrow> \<lparr> status = Error,
                              models = prevModels (modelsByProvider s0) ?i,
                              error = Some (errorMessage fallback e) \<rparr>)"
    using tok by (cases rB) (simp_all add: refreshSettle_models same prevModels_refreshBegin)
next
  assume "(orchestratorStep fallback)\<^sup>*\<^sup>* (refreshBegin entryA s0) s1
            \<and> (orchestratorStep fallback)\<^sup>*\<^sup>* (refreshBegin entryB s1) s"
  then show "refreshSettle fallback entryA (nextTokenOf s0 (entry_id entryA)) rA s = s"
    using superseded [OF _ _ same] by blast
next
  let ?sA = "refreshConfigured fallback entryA s0"
  have "providerFetchToken (refreshBegin entryB ?sA) (entry_id entryB)
        = Some (nextTokenOf ?sA (entry_id entryB))"
    by (simp add: refreshBegin_token)
  then show "modelsByProvider (refreshConfigured fallback entryB ?sA) (entry_id entryA)
         = Some \<lparr> status = Success,
                  models = dedupeModels (orEmpty (configuredModels entryB)),
                  error = None \<rparr>"
    by (simp add: refreshConfigured_def [of fallback entryB] refreshSettle_models same)
qed


theorem later_refresh_wins_witness:
  "modelsByProvider
     (refreshSettle ''failed''
        \<lparr> entry_id = ''auth:codex'', sourceKind = AuthProxy, providerKey = ''codex'',
          entry_name = ''Codex'', baseUrl = [], keyOptions = [], entry_order = 0,
          configuredModels = None, authFileNames = Some [''a.json''],
          aliasLookup = Some [], excludedPatterns = Some [], realBaseUrl = None,
          realKeyOptions = None \<rparr>
        1 (Inr [\<lparr> name = ''stale'', alias = None, description = None \<rparr>])
        (refreshSettle ''failed''
           \<lparr> entry_id = ''auth:codex'', sourceKind = AuthProxy, providerKey = ''codex'',
             entry_name = ''Codex'', baseUrl = [], keyOptions = [], entry_order = 0,
             configuredModels = None, authFileNames = Some [''a.json''],
             aliasLookup = Some [], excludedPatterns = Some [], realBaseUrl = None,
             realKeyOptions = None \<rparr>
           2 (Inl (ErrorObj ''boom''))
           (refreshBegin
              \<lparr> entry_id = ''auth:codex'', sourceKind = AuthProxy, providerKey = ''codex'',
                entry_name = ''Codex'', baseUrl = [], keyOptions = [], entry_order = 0,
                configuredModels = None, authFileNames = Some [''a.json''],
                aliasLookup = Some [], excludedPatterns = Some [], realBaseUrl = None,
                realKeyOptions = None \<rparr>
              (refreshBegin
                 \<lparr> entry_id = ''auth:codex'', sourceKind = AuthProxy, providerKey = ''codex'',
                   entry_name = ''Codex'', baseUrl = [], keyOptions = [], entry_order = 0,
                   configuredModels = None, authFileNames = Some [''a.json''],
                   aliasLookup = Some [], excludedPatterns = Some [], realBaseUrl = None,
                   realKeyOptions = None \<rparr>
                 \<lparr> providerFetchToken = Map.empty, modelsByProvider = Map.empty \<rparr>))))
     ''auth:codex''
   = Some \<lparr> status = Error, models = [], error = Some ''boom'' \<rparr>"
proof -
  let ?e = "\<lparr> entry_id = ''auth:codex'', sourceKind = AuthProxy, providerKey = ''codex'',
          entry_name = ''Codex'', baseUrl = [], keyOptions = [], entry_order = 0,
          configuredModels = None, authFileNames = Some [''a.json''],
          aliasLookup = Some [], excludedPatterns = Some [], realBaseUrl = None,
          realKeyOptions = None \<rparr>"
  let ?s0 = "\<lparr> providerFetchToken = Map.empty, modelsByProvider = Map.empty \<rparr>"
  have tA: "nextTokenOf ?s0 (entry_id ?e) = 1" by (simp add: nextTokenOf_def)
  have tB: "nextTokenOf (refreshBegin ?e ?s0) (entry_id ?e) = 2"
    by (simp only: nextTokenOf_refreshBegin tA)
  note t = later_refresh_wins [where entryA = ?e and entryB = ?e and ?s0.0 = ?s0
      and fallback = "''failed''"
      and rA = "Inr [\<lparr> name = ''stale'', alias = None, description = None \<rparr>]"
      and rB = "Inl (ErrorObj ''boom'')", OF refl, unfolded tA tB]
  have p: "prevModels Map.empty ''auth:codex'' = []" by (simp add: prevModels_def)
  show ?thesis
    using t [THEN conjunct2, THEN conjunct1]
          t [THEN conjunct2, THEN conjunct2, THEN conjunct2, THEN conjunct1]
    by (simp add: p)
qed

section \<open>Matching an exclusion pattern\<close>

lemma splitOn_not_Nil: "splitOn sep s \<noteq> []"
  by (induction s) (auto split: list.splits)

lemma syntax_chars:
  "backslash \<in> set regexSyntaxChars" "CHR ''.'' \<in> set regexSyntaxChars"
  "CHR ''*'' \<in> set regexSyntaxChars" "CHR ''^'' \<in> set regexSyntaxChars"
  "CHR ''$'' \<in> set regexSyntaxChars" "CHR ''.'' \<noteq> backslash" "CHR ''*'' \<noteq> backslash"
  "CHR ''^'' \<noteq> backslash" "CHR ''$'' \<noteq> backslash" "CHR ''*'' \<noteq> CHR ''.''"
  "CHR ''^'' \<noteq> CHR ''.''" "CHR ''$'' \<noteq> CHR ''.''"
  by (simp_all add: regexSyntaxChars_def backslash_def)

lemma parseAtoms_escape:
  "parseAtoms (escapeRegex seg @ rest)
   = map_option ((@) (map (\<lambda>c. Inl (AChar c)) seg)) (parseAtoms rest)"
proof (induction seg)
  case Nil
  then show ?case by (simp add: option.map_ident)
next
  case (Cons c cs)
  show ?case
  proof (cases "c \<in> set regexSyntaxChars")
    case True
    then show ?thesis using Cons.IH
      by (simp add: option.map_comp o_def del: parseAtoms.simps(2))
         (simp add: option.map_comp o_def)
  next
    case False
    then have "c \<noteq> backslash" "c \<noteq> CHR ''.''" using syntax_chars by auto
    then show ?thesis using False Cons.IH
      by (simp add: option.map_comp o_def)
  qed
qed


lemma parseAtoms_join:
  "parseAtoms (joinWith ''.*'' (map escapeRegex segs) @ rest)
   = map_option ((@) (globAtoms segs)) (parseAtoms rest)"
proof (induction segs rule: globAtoms.induct)
  case 1
  then show ?case by (simp add: option.map_ident)
next
  case (2 seg)
  then show ?case by (simp add: parseAtoms_escape)
next
  case (3 seg t r)
  have "parseAtoms (CHR ''.'' # CHR ''*'' # joinWith ''.*'' (map escapeRegex (t # r)) @ rest)
        = map_option ((@) (Inl ADot # Inr (CHR ''*'') # globAtoms (t # r))) (parseAtoms rest)"
    using 3 syntax_chars by (cases "parseAtoms rest") simp_all
  then show ?case
    by (cases "parseAtoms rest") (simp_all add: parseAtoms_escape del: parseAtoms.simps)
qed

lemma parseTokens_one:
  "(\<And>r'. rest \<noteq> Inr (CHR ''*'') # r') \<Longrightarrow>
   parseTokens (Inl a # rest) = map_option (Cons (TOne a)) (parseTokens rest)"
proof (cases rest)
  case Nil
  then show ?thesis by simp
next
  case (Cons x xs)
  assume n: "\<And>r'. rest \<noteq> Inr (CHR ''*'') # r'"
  show ?thesis
  proof (cases x)
    case (Inl b)
    then show ?thesis using Cons by simp
  next
    case (Inr c)
    then have "c \<noteq> CHR ''*''" using n Cons by auto
    then show ?thesis using Cons Inr by simp
  qed
qed

lemma parseTokens_lits:
  "(\<And>r'. rest \<noteq> Inr (CHR ''*'') # r') \<Longrightarrow>
   parseTokens (map (\<lambda>c. Inl (AChar c)) seg @ rest)
   = map_option ((@) (map (\<lambda>c. TOne (AChar c)) seg)) (parseTokens rest)"
proof (induction seg)
  case Nil
  then show ?case by (simp add: option.map_ident)
next
  case (Cons c cs)
  have "\<And>r'. map (\<lambda>c. Inl (AChar c)) cs @ rest \<noteq> Inr (CHR ''*'') # r'"
    using Cons.prems by (cases cs) auto
  then have "parseTokens (Inl (AChar c) # map (\<lambda>c. Inl (AChar c)) cs @ rest)
        = map_option (Cons (TOne (AChar c))) (parseTokens (map (\<lambda>c. Inl (AChar c)) cs @ rest))"
    by (rule parseTokens_one)
  then show ?case using Cons by (simp add: option.map_comp o_def)
qed

lemma parseTokens_glob:
  "parseTokens (globAtoms segs @ [Inr (CHR ''$'')]) = Some (globTokens segs @ [TEnd])"
proof (induction segs rule: globAtoms.induct)
  case 1
  then show ?case by simp
next
  case (2 seg)
  have "parseTokens (map (\<lambda>c. Inl (AChar c)) seg @ [Inr (CHR ''$'')])
        = map_option ((@) (map (\<lambda>c. TOne (AChar c)) seg)) (parseTokens [Inr (CHR ''$'')])"
    by (rule parseTokens_lits) simp
  then show ?case by simp
next
  case (3 seg t r)
  let ?rest = "Inl ADot # Inr (CHR ''*'') # globAtoms (t # r) @ [Inr (CHR ''$'')]"
  have "parseTokens (map (\<lambda>c. Inl (AChar c)) seg @ ?rest)
        = map_option ((@) (map (\<lambda>c. TOne (AChar c)) seg)) (parseTokens ?rest)"
    by (rule parseTokens_lits) simp
  moreover have "parseTokens ?rest = Some (TStar ADot # globTokens (t # r) @ [TEnd])"
    using 3 by simp
  ultimately show ?case by simp
qed

lemma parseRegex_exclude:
  "parseRegex (excludeRegexSource pattern)
   = Some (TStart # globTokens (splitOn (CHR ''*'') pattern) @ [TEnd])"
proof -
  let ?segs = "splitOn (CHR ''*'') pattern"
  have "parseAtoms (joinWith ''.*'' (map escapeRegex ?segs) @ ''$'')
        = Some (globAtoms ?segs @ [Inr (CHR ''$'')])"
    using syntax_chars by (simp add: parseAtoms_join del: parseAtoms.simps(2)) simp
  then have "parseAtoms (excludeRegexSource pattern)
        = Some (Inr (CHR ''^'') # globAtoms ?segs @ [Inr (CHR ''$'')])"
    using syntax_chars by (simp add: excludeRegexSource_def)
  moreover have "parseTokens (Inr (CHR ''^'') # globAtoms ?segs @ [Inr (CHR ''$'')])
        = Some (TStart # globTokens ?segs @ [TEnd])"
    by (simp add: parseTokens_glob)
  ultimately show ?thesis by (simp add: parseRegex_def)
qed


lemma searchFrom_start_False: "searchFrom (TStart # ts) False s = False"
  by (induction s) simp_all

lemma regexTest_anchored: "regexTest (TStart # ts) w = matchHere ts True w"
  by (cases w) (simp_all add: regexTest_def searchFrom_start_False)

lemma matchHere_flag:
  "TStart \<notin> set ts \<Longrightarrow> matchHere ts b s = matchHere ts False s"
  by (induction ts b s rule: matchHere.induct) auto

lemma canonical_Nil_iff: "(canonical u = []) = (u = [])"
  by (simp add: canonical_def)

lemma canonical_Cons_iff:
  "(canonical w = canonical (c # cs))
   = (\<exists>x xs. w = x # xs \<and> canonChar x = canonChar c \<and> canonical xs = canonical cs)"
  by (cases w) (auto simp: canonical_def)

lemma matchHere_lits:
  "TStart \<notin> set ts \<Longrightarrow>
   matchHere (map (\<lambda>c. TOne (AChar c)) seg @ ts) b w
   = (\<exists>u v. w = u @ v \<and> canonical u = canonical seg \<and> matchHere ts False v)"
proof (induction seg arbitrary: w b)
  case Nil
  have "matchHere ts b w = matchHere ts False w" using Nil by (rule matchHere_flag)
  then show ?case by (simp add: canonical_def)
next
  case (Cons c cs)
  show ?case
  proof (cases w)
    case Nil
    then show ?thesis by (simp add: canonical_def)
  next
    case (Cons x xs)
    have "matchHere (map (\<lambda>c. TOne (AChar c)) (c # cs) @ ts) b (x # xs)
          = (canonChar c = canonChar x
             \<and> (\<exists>u v. xs = u @ v \<and> canonical u = canonical cs \<and> matchHere ts False v))"
      using Cons.IH [OF Cons.prems, of False xs] by simp
    also have "\<dots> = (\<exists>u v. x # xs = u @ v \<and> canonical u = canonical (c # cs)
                          \<and> matchHere ts False v)"
    proof
      assume "canonChar c = canonChar x
             \<and> (\<exists>u v. xs = u @ v \<and> canonical u = canonical cs \<and> matchHere ts False v)"
      then obtain u v where "xs = u @ v" "canonical u = canonical cs" "matchHere ts False v"
        and "canonChar c = canonChar x" by blast
      then have "x # xs = (x # u) @ v \<and> canonical (x # u) = canonical (c # cs)
                 \<and> matchHere ts False v"
        by (simp add: canonical_def)
      then show "\<exists>u v. x # xs = u @ v \<and> canonical u = canonical (c # cs)
                          \<and> matchHere ts False v"
        by blast
    next
      assume "\<exists>u v. x # xs = u @ v \<and> canonical u = canonical (c # cs)
                          \<and> matchHere ts False v"
      then obtain u v where uv: "x # xs = u @ v" "canonical u = canonical (c # cs)"
        "matchHere ts False v" by blast
      from uv(2) obtain y ys where y: "u = y # ys" "canonChar y = canonChar c"
        "canonical ys = canonical cs"
        by (auto simp: canonical_Cons_iff)
      then have "y = x" "xs = ys @ v" using uv(1) by simp_all
      then show "canonChar c = canonChar x
             \<and> (\<exists>u v. xs = u @ v \<and> canonical u = canonical cs \<and> matchHere ts False v)"
        using y uv(3) by auto
    qed
    finally show ?thesis using Cons by simp
  qed
qed

lemma matchHere_star:
  "TStart \<notin> set ts \<Longrightarrow>
   matchHere (TStar ADot # ts) b w
   = (\<exists>g v. w = g @ v \<and> \<not> list_ex isLineTerminator g \<and> matchHere ts False v)"
proof (induction w arbitrary: b)
  case Nil
  have "matchHere ts b [] = matchHere ts False []" using Nil by (rule matchHere_flag)
  then show ?case by simp
next
  case (Cons c cs)
  have f: "matchHere ts b (c # cs) = matchHere ts False (c # cs)"
    using Cons.prems by (rule matchHere_flag)
  have "matchHere (TStar ADot # ts) b (c # cs)
        = ((\<not> isLineTerminator c
            \<and> (\<exists>g v. cs = g @ v \<and> \<not> list_ex isLineTerminator g \<and> matchHere ts False v))
           \<or> matchHere ts False (c # cs))"
    using Cons.IH [OF Cons.prems, of False] f by simp
  also have "\<dots> = (\<exists>g v. c # cs = g @ v \<and> \<not> list_ex isLineTerminator g \<and> matchHere ts False v)"
  proof
    assume "(\<not> isLineTerminator c
            \<and> (\<exists>g v. cs = g @ v \<and> \<not> list_ex isLineTerminator g \<and> matchHere ts False v))
           \<or> matchHere ts False (c # cs)"
    then show "\<exists>g v. c # cs = g @ v \<and> \<not> list_ex isLineTerminator g \<and> matchHere ts False v"
    proof
      assume "\<not> isLineTerminator c
            \<and> (\<exists>g v. cs = g @ v \<and> \<not> list_ex isLineTerminator g \<and> matchHere ts False v)"
      then obtain g v where "cs = g @ v" "\<not> list_ex isLineTerminator g" "matchHere ts False v"
        "\<not> isLineTerminator c" by blast
      then have "c # cs = (c # g) @ v \<and> \<not> list_ex isLineTerminator (c # g) \<and> matchHere ts False v"
        by simp
      then show ?thesis by blast
    next
      assume "matchHere ts False (c # cs)"
      then have "c # cs = [] @ (c # cs) \<and> \<not> list_ex isLineTerminator [] \<and> matchHere ts False (c # cs)"
        by simp
      then show ?thesis by blast
    qed
  next
    assume "\<exists>g v. c # cs = g @ v \<and> \<not> list_ex isLineTerminator g \<and> matchHere ts False v"
    then obtain g v where gv: "c # cs = g @ v" "\<not> list_ex isLineTerminator g" "matchHere ts False v"
      by blast
    show "(\<not> isLineTerminator c
            \<and> (\<exists>g v. cs = g @ v \<and> \<not> list_ex isLineTerminator g \<and> matchHere ts False v))
           \<or> matchHere ts False (c # cs)"
    proof (cases g)
      case Nil
      then show ?thesis using gv by simp
    next
      case (Cons y ys)
      then have "y = c" "cs = ys @ v" "\<not> isLineTerminator c" "\<not> list_ex isLineTerminator ys"
        using gv by auto
      then show ?thesis using gv(3) by blast
    qed
  qed
  finally show ?case .
qed

lemma globTokens_startFree: "TStart \<notin> set (globTokens segs)"
  by (induction segs rule: globTokens.induct) auto

lemma matchHere_glob:
  "matchHere (globTokens segs @ [TEnd]) b w = globMatches segs w"
proof (induction segs arbitrary: w b rule: globTokens.induct)
  case 1
  then show ?case by simp
next
  case (2 seg)
  have "matchHere (map (\<lambda>c. TOne (AChar c)) seg @ [TEnd]) b w
        = (\<exists>u v. w = u @ v \<and> canonical u = canonical seg \<and> matchHere [TEnd] False v)"
    by (rule matchHere_lits) simp
  also have "\<dots> = (canonical w = canonical seg)"
    by auto
  finally show ?case by simp
next
  case (3 seg t r)
  let ?rest = "globTokens (t # r) @ [TEnd]"
  have sf: "TStart \<notin> set ?rest" "TStart \<notin> set (TStar ADot # ?rest)"
    using globTokens_startFree [of "t # r"] by simp_all
  have "matchHere (globTokens (seg # t # r) @ [TEnd]) b w
        = (\<exists>u v. w = u @ v \<and> canonical u = canonical seg
                 \<and> matchHere (TStar ADot # ?rest) False v)"
    using matchHere_lits [OF sf(2), of seg b w] by simp
  also have "\<dots> = (\<exists>u v. w = u @ v \<and> canonical u = canonical seg
                 \<and> (\<exists>g v'. v = g @ v' \<and> \<not> list_ex isLineTerminator g
                            \<and> globMatches (t # r) v'))"
    by (simp only: matchHere_star [OF sf(1)] 3)
  also have "\<dots> = globMatches (seg # t # r) w"
    by auto
  finally show ?case .
qed


lemma joinWith_Cons_head: "joinWith sep ((c # s) # ss) = c # joinWith sep (s # ss)"
  by (cases ss) simp_all

lemma joinWith_splitOn: "joinWith [sep] (splitOn sep s) = s"
proof (induction s)
  case Nil
  then show ?case by simp
next
  case (Cons c cs)
  obtain t r where tr: "splitOn sep cs = t # r"
    using splitOn_not_Nil [of sep cs] by (cases "splitOn sep cs") auto
  show ?case using Cons tr by (simp add: joinWith_Cons_head)
qed

lemma splitOn_free: "list_all (\<lambda>seg. sep \<notin> set seg) (splitOn sep s)"
  by (induction s) (auto split: list.splits)

lemma map_eq_pointwise:
  "(map f xs = map f ys) = list_all2 (\<lambda>a b. f a = f b) xs ys"
proof (induction xs arbitrary: ys)
  case Nil
  then show ?case by simp
next
  case (Cons x xs)
  then show ?case by (cases ys) auto
qed

text \<open>
  C6. For a pattern without a star, \<open>matchExcludePattern\<close> holds exactly when the model and
  the pattern are equal up to case: they have the same length and, place by place, characters
  with the same lower case. For a pattern with a star, the expression that is written (each
  literal run between the stars escaped, the runs joined with \<open>.*\<close>, anchored at both ends)
  parses to the start anchor, the characters of the runs as literals with a starred dot
  between two runs, and the end anchor; and the engine accepts the model exactly when the whole
  model is the runs in their order, each up to the case folding of the flag \<open>i\<close>, with any
  characters (which the dot matches: all but line terminators) at each star. The runs are the
  pieces of the pattern between its stars. The pattern \<open>gpt-*-preview\<close> matches
  \<open>GPT-4-Preview\<close> and does not match \<open>gpt-4\<close>. Case is folded beyond ASCII as well (U+00C9
  and U+00E9 match, with and without a star; the signs U+00D7 and U+00F7 do not), and a star
  does not reach over a line feed.
\<close>

theorem matchExcludePattern_semantics:
  "(CHR ''*'' \<notin> set pattern \<longrightarrow>
      matchExcludePattern model pattern = (toLowerCase model = toLowerCase pattern)
      \<and> matchExcludePattern model pattern
          = list_all2 (\<lambda>a b. lowerChar a = lowerChar b) model pattern)
   \<and> (CHR ''*'' \<in> set pattern \<longrightarrow>
        parseRegex (excludeRegexSource pattern)
          = Some (TStart # globTokens (splitOn (CHR ''*'') pattern) @ [TEnd])
        \<and> matchExcludePattern model pattern = globMatches (splitOn (CHR ''*'') pattern) model)
   \<and> joinWith ''*'' (splitOn (CHR ''*'') pattern) = pattern
   \<and> list_all (\<lambda>seg. CHR ''*'' \<notin> set seg) (splitOn (CHR ''*'') pattern)
   \<and> matchExcludePattern ''GPT-4-Preview'' ''gpt-*-preview''
   \<and> \<not> matchExcludePattern ''gpt-4'' ''gpt-*-preview''
   \<and> matchExcludePattern [CHR 0xE9] [CHR 0xC9]
   \<and> matchExcludePattern [CHR 0xE9, CHR ''x''] [CHR 0xC9, CHR ''*'']
   \<and> \<not> matchExcludePattern [CHR 0xF7] [CHR 0xD7]
   \<and> \<not> matchExcludePattern [CHR 0xF7, CHR ''x''] [CHR 0xD7, CHR ''*'']
   \<and> \<not> matchExcludePattern [CHR ''a'', CHR 0x0A, CHR ''b''] ''a*''"
proof (intro conjI impI)
  assume "CHR ''*'' \<notin> set pattern"
  then show e: "matchExcludePattern model pattern = (toLowerCase model = toLowerCase pattern)"
    by (simp add: matchExcludePattern_def)
  show "matchExcludePattern model pattern
          = list_all2 (\<lambda>a b. lowerChar a = lowerChar b) model pattern"
    unfolding e toLowerCase_def by (rule map_eq_pointwise)
next
  assume "CHR ''*'' \<in> set pattern"
  then show "matchExcludePattern model pattern = globMatches (splitOn (CHR ''*'') pattern) model"
    by (simp add: matchExcludePattern_def parseRegex_exclude regexTest_anchored matchHere_glob)
next
  show "parseRegex (excludeRegexSource pattern)
          = Some (TStart # globTokens (splitOn (CHR ''*'') pattern) @ [TEnd])"
    by (rule parseRegex_exclude)
  show "joinWith ''*'' (splitOn (CHR ''*'') pattern) = pattern"
    by (rule joinWith_splitOn)
  show "list_all (\<lambda>seg. CHR ''*'' \<notin> set seg) (splitOn (CHR ''*'') pattern)"
    by (rule splitOn_free)
  show "matchExcludePattern ''GPT-4-Preview'' ''gpt-*-preview''"
    by code_simp
  show "\<not> matchExcludePattern ''gpt-4'' ''gpt-*-preview''"
    by code_simp
  show "matchExcludePattern [CHR 0xE9] [CHR 0xC9]"
    by code_simp
  show "matchExcludePattern [CHR 0xE9, CHR ''x''] [CHR 0xC9, CHR ''*'']"
    by code_simp
  show "\<not> matchExcludePattern [CHR 0xF7] [CHR 0xD7]"
    by code_simp
  show "\<not> matchExcludePattern [CHR 0xF7, CHR ''x''] [CHR 0xD7, CHR ''*'']"
    by code_simp
  show "\<not> matchExcludePattern [CHR ''a'', CHR 0x0A, CHR ''b''] ''a*''"
    by code_simp
qed

theorem matchExcludePattern_semantics_witness:
  "CHR ''*'' \<in> set ''gpt-*-preview''
   \<and> globMatches [''gpt-'', ''-preview''] ''GPT-4-Preview''
   \<and> \<not> globMatches [''gpt-'', ''-preview''] ''gpt-4''
   \<and> CHR ''*'' \<notin> set ''GPT-4''
   \<and> matchExcludePattern ''gpt-4'' ''GPT-4''"
proof -
  have i: "CHR ''*'' \<in> set ''gpt-*-preview''" by simp
  have n: "CHR ''*'' \<notin> set ''GPT-4''" by simp
  have s: "splitOn (CHR ''*'') ''gpt-*-preview'' = [''gpt-'', ''-preview'']" by code_simp
  have m1: "matchExcludePattern ''GPT-4-Preview'' ''gpt-*-preview''" by code_simp
  have m2: "\<not> matchExcludePattern ''gpt-4'' ''gpt-*-preview''" by code_simp
  have l: "toLowerCase ''gpt-4'' = toLowerCase ''GPT-4''" by code_simp
  have g1: "globMatches [''gpt-'', ''-preview''] ''GPT-4-Preview''"
    using matchExcludePattern_semantics [of "''gpt-*-preview''" "''GPT-4-Preview''",
            THEN conjunct2, THEN conjunct1, THEN mp, OF i, THEN conjunct2] m1
    unfolding s by simp
  have g2: "\<not> globMatches [''gpt-'', ''-preview''] ''gpt-4''"
    using matchExcludePattern_semantics [of "''gpt-*-preview''" "''gpt-4''",
            THEN conjunct2, THEN conjunct1, THEN mp, OF i, THEN conjunct2] m2
    unfolding s by simp
  have e: "matchExcludePattern ''gpt-4'' ''GPT-4''"
    using matchExcludePattern_semantics [of "''GPT-4''" "''gpt-4''",
            THEN conjunct1, THEN mp, OF n, THEN conjunct1] l
    by simp
  show ?thesis using i g1 g2 n e by (intro conjI)
qed

end
